theory Spec2Isabelle
  imports Complex_Main "HOL-Library.Multiset"
begin

section \<open>Time points, durations and regular expressions\<close>

text \<open>
  A \<open>time.Time\<close> is an absolute instant; the model keeps it as the number of nanoseconds
  since Go's zero time (January 1, year 1, 00:00 UTC), so \<open>Before\<close>, \<open>After\<close> and
  \<open>Equal\<close> are the comparisons of integers.  A \<open>time.Duration\<close> is an int64 count of
  nanoseconds.  \<open>Time.Sub\<close> returns the difference, and the largest (smallest) duration when
  the difference does not fit into an int64.
\<close>

type_synonym Time = int
type_synonym Duration = int

definition maxDuration :: Duration where
  "maxDuration = 2 ^ 63 - 1"

definition minDuration :: Duration where
  "minDuration = - (2 ^ 63)"

definition Second :: Duration where
  "Second = 1000000000"

definition Time_Sub :: "Time \<Rightarrow> Time \<Rightarrow> Duration" where
  "Time_Sub t u =
     (let d = t - u
      in if maxDuration < d then maxDuration
         else if d < minDuration then minDuration
         else d)"

text \<open>
  \<open>Duration.Round\<close>: the multiple of \<open>m\<close> nearest to \<open>d\<close>, halves away from zero, and the
  largest (smallest) duration when that multiple does not fit into an int64.  The
  remainder \<open>d % m\<close> of Go has the sign of \<open>d\<close>.
\<close>

definition Duration_Round :: "Duration \<Rightarrow> Duration \<Rightarrow> Duration" where
  "Duration_Round d m =
     (if m \<le> 0 then d
      else if d < 0
      then (let r = (- d) mod m
            in if r + r < m then d + r
               else if minDuration \<le> d - m + r then d - m + r
               else minDuration)
      else (let r = d mod m
            in if r + r < m then d - r
               else if d + m - r \<le> maxDuration then d + m - r
               else maxDuration))"

definition Time_Before :: "Time \<Rightarrow> Time \<Rightarrow> bool" where
  "Time_Before t u = (t < u)"

definition Time_After :: "Time \<Rightarrow> Time \<Rightarrow> bool" where
  "Time_After t u = (u < t)"

definition zeroTime :: Time where
  "zeroTime = 0"

text \<open>
  A compiled \<open>*regexp.Regexp\<close> is used only through \<open>FindStringSubmatch\<close> and
  \<open>MatchString\<close>.  It is modelled by its \<open>FindStringSubmatch\<close> function: \<open>None\<close> is the
  nil slice of a line that does not match, \<open>Some ms\<close> the slice of the whole match followed
  by the capture groups.
\<close>

type_synonym regexp = "string \<Rightarrow> string list option"

definition MatchString :: "regexp \<Rightarrow> string \<Rightarrow> bool" where
  "MatchString re s = (re s \<noteq> None)"

section \<open>Records, issues and results\<close>

record ParsedLine =
  Raw :: string
  Timestamp :: Time
  Source :: string
  LineNum :: int

datatype error =
    EOF
  | Cancelled
  | SourceError string
  | Panic string

datatype RuleType = RuleTypeSequence | RuleTypePeriodic | RuleTypeConditional

datatype IssueType =
    IssueTypeMissingEnd
  | IssueTypeGapExceeded
  | IssueTypeMissingConsequence
  | IssueTypeBelowMinOccurrences

text \<open>
  The description of an issue is the text \<open>fmt.Sprintf\<close> renders from a fixed format and
  its arguments.  The model keeps the format (one constructor for each format string of the
  engines) together with the arguments.
\<close>

datatype IssueDescription =
    DescSequenceNotCompleted Duration
      \<comment> \<open>"Sequence started but not completed within %s"\<close>
  | DescGap Duration Duration
      \<comment> \<open>"Gap of %s between occurrences (max allowed: %s)", of the gap rounded to the
          second and the max gap\<close>
  | DescOnlyOccurrences int int
      \<comment> \<open>"Only %d occurrences found (minimum required: %d)"\<close>
  | DescTrigger Duration
      \<comment> \<open>"Trigger event without expected consequence within %s"\<close>
  | DescTriggerId string Duration
      \<comment> \<open>"Trigger event (id=%s) without expected consequence within %s"\<close>

record IssueContext =
  CorrelationID :: string
  StartTime :: Time
  EndTime :: Time
  IssueSource :: string
  IssueLineNum :: int
  Timeout :: Duration
  ActualGap :: Duration
  ExpectedGap :: Duration
  Occurrences :: int
  MinRequired :: int

definition emptyContext :: IssueContext where
  "emptyContext =
     \<lparr>CorrelationID = [], StartTime = zeroTime, EndTime = zeroTime, IssueSource = [],
      IssueLineNum = 0, Timeout = 0, ActualGap = 0, ExpectedGap = 0, Occurrences = 0,
      MinRequired = 0\<rparr>"

record Issue =
  Type :: IssueType
  Description :: IssueDescription
  Context :: IssueContext

record RuleStats =
  StatsLinesProcessed :: int
  LinesMatched :: int
  StatsStartTime :: Time
  StatsEndTime :: Time

definition emptyStats :: RuleStats where
  "emptyStats =
     \<lparr>StatsLinesProcessed = 0, LinesMatched = 0, StatsStartTime = zeroTime,
      StatsEndTime = zeroTime\<rparr>"

record RuleResult =
  RuleName :: string
  ResultRuleType :: RuleType
  RuleDescription :: string
  Issues :: "Issue list"
  Stats :: RuleStats

section \<open>Conditional engine\<close>

record triggerEvent =
  correlationID :: string
  timestamp :: Time
  source :: string
  lineNum :: int

record ConditionalEngine =
  cond_name :: string
  cond_description :: string
  cond_timeout :: Duration
  cond_corrField :: int
  triggerPattern :: regexp
  expectedPattern :: regexp
  triggers :: "triggerEvent list"
  cond_stats :: RuleStats

text \<open>
  The correlation id both blocks of \<open>Process\<close> read from a match: the capture group
  \<open>corrField\<close> when it is positive and within the match, the empty string otherwise.
\<close>

definition cond_corrID :: "ConditionalEngine \<Rightarrow> string list \<Rightarrow> string" where
  "cond_corrID e ms =
     (if 0 < cond_corrField e \<and> cond_corrField e \<le> int (length ms) - 1
      then ms ! nat (cond_corrField e) else [])"

text \<open>
  \<open>removeSatisfiedTriggers\<close>: the loop over \<open>e.triggers\<close>.  Its arguments are the engine,
  the expected event, the triggers still to visit and \<open>newTriggers\<close>.  The slice expression
  \<open>e.triggers[len(newTriggers)+1:]\<close> panics when its lower bound exceeds the length.
\<close>

definition satisfied :: "ConditionalEngine \<Rightarrow> string \<Rightarrow> Time \<Rightarrow> triggerEvent \<Rightarrow> bool" where
  "satisfied e corrID eventTime trigger =
     (if 0 < cond_corrField e
      then correlationID trigger = corrID
           \<and> Time_Sub eventTime (timestamp trigger) \<le> cond_timeout e
      else Time_Sub eventTime (timestamp trigger) \<le> cond_timeout e)"

fun removeLoop ::
  "ConditionalEngine \<Rightarrow> string \<Rightarrow> Time \<Rightarrow> triggerEvent list \<Rightarrow> triggerEvent list
     \<Rightarrow> error + triggerEvent list" where
  "removeLoop e corrID eventTime [] newTriggers = Inr newTriggers"
| "removeLoop e corrID eventTime (trigger # rest) newTriggers =
     (if \<not> satisfied e corrID eventTime trigger
      then removeLoop e corrID eventTime rest (newTriggers @ [trigger])
      else if cond_corrField e = 0
      then (if length newTriggers + 1 \<le> length (triggers e)
            then Inr (newTriggers @ drop (length newTriggers + 1) (triggers e))
            else Inl (Panic ''slice bounds out of range''))
      else removeLoop e corrID eventTime rest newTriggers)"

definition removeSatisfiedTriggers ::
  "ConditionalEngine \<Rightarrow> string \<Rightarrow> Time \<Rightarrow> error + ConditionalEngine" where
  "removeSatisfiedTriggers e corrID eventTime =
     (case removeLoop e corrID eventTime (triggers e) [] of
        Inl err \<Rightarrow> Inl err
      | Inr newTriggers \<Rightarrow> Inr (e\<lparr>triggers := newTriggers\<rparr>))"

text \<open>The first block of \<open>Process\<close>: count the line, and record it when it is a trigger.\<close>

definition cond_checkTrigger :: "ConditionalEngine \<Rightarrow> ParsedLine \<Rightarrow> ConditionalEngine" where
  "cond_checkTrigger e line =
     (let e1 = e\<lparr>cond_stats := (cond_stats e)
                 \<lparr>StatsLinesProcessed := StatsLinesProcessed (cond_stats e) + 1\<rparr>\<rparr>
      in case triggerPattern e1 (Raw line) of
           None \<Rightarrow> e1
         | Some ms \<Rightarrow>
             e1\<lparr>triggers := triggers e1 @
                    [\<lparr>correlationID = cond_corrID e1 ms, timestamp = Timestamp line,
                      source = Source line, lineNum = LineNum line\<rparr>],
                cond_stats := (cond_stats e1)
                    \<lparr>LinesMatched := LinesMatched (cond_stats e1) + 1\<rparr>\<rparr>)"

definition ConditionalEngine_Process ::
  "ConditionalEngine \<Rightarrow> ParsedLine \<Rightarrow> error + ConditionalEngine" where
  "ConditionalEngine_Process e line =
     (let e2 = cond_checkTrigger e line
      in case expectedPattern e2 (Raw line) of
           None \<Rightarrow> Inr e2
         | Some ms \<Rightarrow> removeSatisfiedTriggers e2 (cond_corrID e2 ms) (Timestamp line))"

definition cond_issue :: "ConditionalEngine \<Rightarrow> triggerEvent \<Rightarrow> Issue" where
  "cond_issue e trigger =
     \<lparr>Type = IssueTypeMissingConsequence,
      Description =
        (if correlationID trigger \<noteq> []
         then DescTriggerId (correlationID trigger) (cond_timeout e)
         else DescTrigger (cond_timeout e)),
      Context = emptyContext
        \<lparr>CorrelationID := correlationID trigger, StartTime := timestamp trigger,
         IssueSource := source trigger, IssueLineNum := lineNum trigger,
         Timeout := cond_timeout e\<rparr>\<rparr>"

text \<open>\<open>Finalize\<close> reads the clock (\<open>now\<close>) and turns every remaining trigger into an issue.\<close>

definition ConditionalEngine_Finalize ::
  "Time \<Rightarrow> ConditionalEngine \<Rightarrow> RuleResult \<times> ConditionalEngine" where
  "ConditionalEngine_Finalize now e =
     (let e1 = e\<lparr>cond_stats := (cond_stats e)\<lparr>StatsEndTime := now\<rparr>\<rparr>
      in (\<lparr>RuleName = cond_name e1, ResultRuleType = RuleTypeConditional,
           RuleDescription = cond_description e1,
           Issues = map (cond_issue e1) (triggers e1),
           Stats = cond_stats e1\<rparr>, e1))"

definition ConditionalEngine_Reset :: "ConditionalEngine \<Rightarrow> ConditionalEngine" where
  "ConditionalEngine_Reset e = e\<lparr>triggers := [], cond_stats := emptyStats\<rparr>"

text \<open>
  Words of the specification for the conditional engine: a pending trigger is in the window
  of an expected event when the elapsed time does not exceed the timeout; the pending
  triggers an expected event is resolved against are those held once the record's own
  trigger match, if any, has been appended.
\<close>

definition in_window :: "ConditionalEngine \<Rightarrow> Time \<Rightarrow> triggerEvent \<Rightarrow> bool" where
  "in_window e eventTime trigger =
     (Time_Sub eventTime (timestamp trigger) \<le> cond_timeout e)"

definition pending :: "ConditionalEngine \<Rightarrow> ParsedLine \<Rightarrow> triggerEvent list" where
  "pending e line = triggers (cond_checkTrigger e line)"



section \<open>Sequence engine\<close>

record sequenceTracker =
  seq_correlationID :: string
  startTime :: Time
  seq_source :: string
  seq_lineNum :: int

record SequenceEngine =
  seq_name :: string
  seq_description :: string
  seq_timeout :: Duration
  seq_corrField :: int
  startPattern :: regexp
  endPattern :: regexp
  openSequences :: "string \<rightharpoonup> sequenceTracker"
  seq_stats :: RuleStats

text \<open>
  \<open>Process\<close> has two blocks.  Both index the match with \<open>corrField\<close> after checking only
  its upper bound, so a negative \<open>corrField\<close> panics.
\<close>

definition seq_checkStart :: "SequenceEngine \<Rightarrow> ParsedLine \<Rightarrow> error + SequenceEngine" where
  "seq_checkStart e line =
     (let e1 = e\<lparr>seq_stats := (seq_stats e)
                 \<lparr>StatsLinesProcessed := StatsLinesProcessed (seq_stats e) + 1\<rparr>\<rparr>
      in case startPattern e1 (Raw line) of
           None \<Rightarrow> Inr e1
         | Some ms \<Rightarrow>
             if seq_corrField e1 \<le> int (length ms) - 1
             then (if seq_corrField e1 < 0 then Inl (Panic ''index out of range'')
                   else let corrID = ms ! nat (seq_corrField e1)
                        in Inr (e1\<lparr>openSequences := (openSequences e1)
                                   (corrID \<mapsto> \<lparr>seq_correlationID = corrID,
                                      startTime = Timestamp line, seq_source = Source line,
                                      seq_lineNum = LineNum line\<rparr>),
                                 seq_stats := (seq_stats e1)
                                   \<lparr>LinesMatched := LinesMatched (seq_stats e1) + 1\<rparr>\<rparr>))
             else Inr e1)"

definition seq_checkEnd :: "SequenceEngine \<Rightarrow> ParsedLine \<Rightarrow> error + SequenceEngine" where
  "seq_checkEnd e line =
     (case endPattern e (Raw line) of
        None \<Rightarrow> Inr e
      | Some ms \<Rightarrow>
          if seq_corrField e \<le> int (length ms) - 1
          then (if seq_corrField e < 0 then Inl (Panic ''index out of range'')
                else let corrID = ms ! nat (seq_corrField e)
                     in case openSequences e corrID of
                          None \<Rightarrow> Inr e
                        | Some tracker \<Rightarrow>
                            if Time_Sub (Timestamp line) (startTime tracker) \<le> seq_timeout e
                            then Inr (e\<lparr>openSequences := (openSequences e)(corrID := None)\<rparr>)
                            else Inr e)
          else Inr e)"

definition SequenceEngine_Process ::
  "SequenceEngine \<Rightarrow> ParsedLine \<Rightarrow> error + SequenceEngine" where
  "SequenceEngine_Process e line =
     (case seq_checkStart e line of
        Inl err \<Rightarrow> Inl err
      | Inr e1 \<Rightarrow> seq_checkEnd e1 line)"

definition seq_issue :: "SequenceEngine \<Rightarrow> sequenceTracker \<Rightarrow> Issue" where
  "seq_issue e tracker =
     \<lparr>Type = IssueTypeMissingEnd,
      Description = DescSequenceNotCompleted (seq_timeout e),
      Context = emptyContext
        \<lparr>CorrelationID := seq_correlationID tracker, StartTime := startTime tracker,
         IssueSource := seq_source tracker, IssueLineNum := seq_lineNum tracker,
         Timeout := seq_timeout e\<rparr>\<rparr>"

text \<open>
  \<open>Finalize\<close> ranges over the map \<open>openSequences\<close>.  Go visits the entries of a map in an
  order it does not specify, which may differ from one range to the next; the model takes
  the order of the keys visited as an argument.  An order a range can take visits every key
  of the map once.
\<close>

definition range_order :: "('k \<rightharpoonup> 'v) \<Rightarrow> 'k list \<Rightarrow> bool" where
  "range_order m ks = (distinct ks \<and> set ks = dom m)"

definition SequenceEngine_Finalize ::
  "Time \<Rightarrow> string list \<Rightarrow> SequenceEngine \<Rightarrow> RuleResult \<times> SequenceEngine" where
  "SequenceEngine_Finalize now ks e =
     (let e1 = e\<lparr>seq_stats := (seq_stats e)\<lparr>StatsEndTime := now\<rparr>\<rparr>
      in (\<lparr>RuleName = seq_name e1, ResultRuleType = RuleTypeSequence,
           RuleDescription = seq_description e1,
           Issues = map (seq_issue e1) (List.map_filter (openSequences e1) ks),
           Stats = seq_stats e1\<rparr>, e1))"

definition SequenceEngine_Reset :: "SequenceEngine \<Rightarrow> SequenceEngine" where
  "SequenceEngine_Reset e = e\<lparr>openSequences := Map.empty, seq_stats := emptyStats\<rparr>"

section \<open>Periodic engine\<close>

record periodicMatch =
  per_timestamp :: Time
  per_source :: string
  per_lineNum :: int

record PeriodicEngine =
  per_name :: string
  per_description :: string
  maxGap :: Duration
  minOccurrences :: int
  pattern :: regexp
  matches :: "periodicMatch list"
  per_stats :: RuleStats

definition PeriodicEngine_Process :: "PeriodicEngine \<Rightarrow> ParsedLine \<Rightarrow> error + PeriodicEngine" where
  "PeriodicEngine_Process e line =
     (let e1 = e\<lparr>per_stats := (per_stats e)
                 \<lparr>StatsLinesProcessed := StatsLinesProcessed (per_stats e) + 1\<rparr>\<rparr>
      in if MatchString (pattern e1) (Raw line)
         then Inr (e1\<lparr>matches := matches e1 @
                        [\<lparr>per_timestamp = Timestamp line, per_source = Source line,
                          per_lineNum = LineNum line\<rparr>],
                      per_stats := (per_stats e1)
                        \<lparr>LinesMatched := LinesMatched (per_stats e1) + 1\<rparr>\<rparr>)
         else Inr e1)"

definition gap_issue :: "PeriodicEngine \<Rightarrow> periodicMatch \<Rightarrow> periodicMatch \<Rightarrow> Issue" where
  "gap_issue e prev cur =
     (let gap = Time_Sub (per_timestamp cur) (per_timestamp prev)
      in \<lparr>Type = IssueTypeGapExceeded,
          Description = DescGap (Duration_Round gap Second) (maxGap e),
          Context = emptyContext
            \<lparr>StartTime := per_timestamp prev, EndTime := per_timestamp cur,
             IssueSource := per_source prev, IssueLineNum := per_lineNum prev,
             ActualGap := gap, ExpectedGap := maxGap e\<rparr>\<rparr>)"

definition below_issue :: "PeriodicEngine \<Rightarrow> Issue" where
  "below_issue e =
     \<lparr>Type = IssueTypeBelowMinOccurrences,
      Description = DescOnlyOccurrences (int (length (matches e))) (minOccurrences e),
      Context = emptyContext
        \<lparr>Occurrences := int (length (matches e)), MinRequired := minOccurrences e\<rparr>\<rparr>"

text \<open>The loop \<open>for i := 1; i < len(e.matches); i++\<close> of \<open>Finalize\<close>, with the issues so far.\<close>

function gapLoop :: "PeriodicEngine \<Rightarrow> nat \<Rightarrow> Issue list \<Rightarrow> Issue list" where
  "gapLoop e i issues =
     (if i < length (matches e)
      then let prev = matches e ! (i - 1);
               cur = matches e ! i;
               gap = Time_Sub (per_timestamp cur) (per_timestamp prev)
           in gapLoop e (i + 1)
                (if maxGap e < gap then issues @ [gap_issue e prev cur] else issues)
      else issues)"
  by pat_completeness auto
termination
  by (relation "measure (\<lambda>(e, i, issues). length (matches e) - i)") auto

declare gapLoop.simps [simp del]

definition PeriodicEngine_Finalize ::
  "Time \<Rightarrow> PeriodicEngine \<Rightarrow> RuleResult \<times> PeriodicEngine" where
  "PeriodicEngine_Finalize now e =
     (let e1 = e\<lparr>per_stats := (per_stats e)\<lparr>StatsEndTime := now\<rparr>\<rparr>;
          issues = gapLoop e1 1 [];
          issues' = (if 0 < minOccurrences e1 \<and> int (length (matches e1)) < minOccurrences e1
                     then issues @ [below_issue e1] else issues)
      in (\<lparr>RuleName = per_name e1, ResultRuleType = RuleTypePeriodic,
           RuleDescription = per_description e1, Issues = issues',
           Stats = per_stats e1\<rparr>, e1))"

definition PeriodicEngine_Reset :: "PeriodicEngine \<Rightarrow> PeriodicEngine" where
  "PeriodicEngine_Reset e = e\<lparr>matches := [], per_stats := emptyStats\<rparr>"

text \<open>
  Words of the specification for the periodic engine: the consecutive pairs of recorded
  matches, and the pairs whose delta is strictly greater than the max gap.
\<close>

definition consecutive_pairs :: "'a list \<Rightarrow> ('a \<times> 'a) list" where
  "consecutive_pairs xs = zip xs (tl xs)"

definition exceeds :: "PeriodicEngine \<Rightarrow> periodicMatch \<times> periodicMatch \<Rightarrow> bool" where
  "exceeds e p = (maxGap e < Time_Sub (per_timestamp (snd p)) (per_timestamp (fst p)))"

text \<open>A \<open>time.Duration\<close> is an int64.\<close>

definition is_Duration :: "int \<Rightarrow> bool" where
  "is_Duration d = (minDuration \<le> d \<and> d \<le> maxDuration)"

text \<open>
  Every entry of \<open>openSequences\<close> is stored under the correlation id it carries (\<open>Process\<close>
  stores it so, and \<open>Reset\<close> leaves no entry).
\<close>

definition seq_keyed :: "SequenceEngine \<Rightarrow> bool" where
  "seq_keyed e = (\<forall>k tr. openSequences e k = Some tr \<longrightarrow> seq_correlationID tr = k)"


section \<open>Example rules and records\<close>

text \<open>
  A regular expression of the shape \<open>^word(.+)\<close>: it matches a line that begins with the
  word and has more text, and captures the rest of the line.
\<close>

definition ex_prefix_re :: "string \<Rightarrow> regexp" where
  "ex_prefix_re w s =
     (if take (length w) s = w \<and> length w < length s then Some [s, drop (length w) s]
      else None)"

definition ex_line :: "string \<Rightarrow> int \<Rightarrow> int \<Rightarrow> ParsedLine" where
  "ex_line raw secs n = \<lparr>Raw = raw, Timestamp = secs * Second, Source = ''app.log'', LineNum = n\<rparr>"

text \<open>
  A conditional rule with a correlation group (trigger \<open>ERROR code=\<close>, expected
  \<open>ALERT code=\<close>, timeout 10 s) holding the triggers 500 and 404.
\<close>

definition ex_cond :: ConditionalEngine where
  "ex_cond =
     \<lparr>cond_name = ''error-alert'', cond_description = [], cond_timeout = 10 * Second,
      cond_corrField = 1, triggerPattern = ex_prefix_re ''ERROR code='',
      expectedPattern = ex_prefix_re ''ALERT code='',
      triggers =
        [\<lparr>correlationID = ''500'', timestamp = 0, source = ''app.log'', lineNum = 1\<rparr>,
         \<lparr>correlationID = ''404'', timestamp = 1 * Second, source = ''app.log'', lineNum = 2\<rparr>],
      cond_stats = emptyStats\<rparr>"

text \<open>
  The same rule with \<open>correlation_field: -1\<close>, a value validation accepts, holding two
  triggers (their ids are empty: a trigger's id is read only when the field is positive).
\<close>

definition ex_cond_neg :: ConditionalEngine where
  "ex_cond_neg =
     \<lparr>cond_name = ''error-alert'', cond_description = [], cond_timeout = 10 * Second,
      cond_corrField = - 1, triggerPattern = ex_prefix_re ''ERROR code='',
      expectedPattern = ex_prefix_re ''ALERT code='',
      triggers =
        [\<lparr>correlationID = [], timestamp = 0, source = ''app.log'', lineNum = 1\<rparr>,
         \<lparr>correlationID = [], timestamp = 1 * Second, source = ''app.log'', lineNum = 2\<rparr>],
      cond_stats = emptyStats\<rparr>"


text \<open>A sequence rule (timeout 60 s) with the sequence \<open>abc\<close> open since time 0.\<close>

definition ex_seq :: SequenceEngine where
  "ex_seq =
     \<lparr>seq_name = ''request'', seq_description = [], seq_timeout = 60 * Second,
      seq_corrField = 1, startPattern = ex_prefix_re ''START id='',
      endPattern = ex_prefix_re ''END id='',
      openSequences = [''abc'' \<mapsto> \<lparr>seq_correlationID = ''abc'', startTime = 0,
                                   seq_source = ''app.log'', seq_lineNum = 1\<rparr>],
      seq_stats = emptyStats\<rparr>"

text \<open>A periodic rule (max gap 5 min, at least 10 occurrences) and its recorded matches.\<close>

definition ex_per :: "int list \<Rightarrow> PeriodicEngine" where
  "ex_per secs =
     \<lparr>per_name = ''heartbeat'', per_description = [], maxGap = 300 * Second,
      minOccurrences = 10, pattern = ex_prefix_re ''HEARTBEAT'',
      matches = map (\<lambda>s. \<lparr>per_timestamp = s * Second, per_source = ''app.log'',
                             per_lineNum = 1\<rparr>) secs,
      per_stats = emptyStats\<rparr>"

section \<open>Analyzer\<close>

text \<open>The three engines behind the \<open>RuleEngine\<close> interface.\<close>

datatype RuleEngine =
    Seq SequenceEngine
  | Per PeriodicEngine
  | Cond ConditionalEngine

fun RuleEngine_Reset :: "RuleEngine \<Rightarrow> RuleEngine" where
  "RuleEngine_Reset (Seq e) = Seq (SequenceEngine_Reset e)"
| "RuleEngine_Reset (Per e) = Per (PeriodicEngine_Reset e)"
| "RuleEngine_Reset (Cond e) = Cond (ConditionalEngine_Reset e)"

fun RuleEngine_Process :: "RuleEngine \<Rightarrow> ParsedLine \<Rightarrow> error + RuleEngine" where
  "RuleEngine_Process (Seq e) line = map_sum id Seq (SequenceEngine_Process e line)"
| "RuleEngine_Process (Per e) line = map_sum id Per (PeriodicEngine_Process e line)"
| "RuleEngine_Process (Cond e) line = map_sum id Cond (ConditionalEngine_Process e line)"

text \<open>
  \<open>Finalize\<close> through the interface; the order in which a map is ranged over matters to
  the sequence engine only.
\<close>

fun RuleEngine_Finalize :: "Time \<Rightarrow> string list \<Rightarrow> RuleEngine \<Rightarrow> RuleResult \<times> RuleEngine" where
  "RuleEngine_Finalize now ks (Seq e) = map_prod id Seq (SequenceEngine_Finalize now ks e)"
| "RuleEngine_Finalize now ks (Per e) = map_prod id Per (PeriodicEngine_Finalize now e)"
| "RuleEngine_Finalize now ks (Cond e) = map_prod id Cond (ConditionalEngine_Finalize now e)"

record TimeRange =
  Start :: Time
  End :: Time

text \<open>
  Of the fields of \<open>Analyzer\<close>, \<open>Analyze\<close> reads the engines and the time range (the rule
  filter is applied when the analyzer is built).
\<close>

record Analyzer =
  engines :: "RuleEngine list"
  timeRange :: "TimeRange option"

record AnalysisMetadata =
  ConfigFile :: string
  Sources :: "string list"
  MetaTimeRange :: "TimeRange option"
  MetaStartTime :: Time
  MetaEndTime :: Time
  LinesProcessed :: int

record AnalysisResult =
  Results :: "RuleResult list"
  Metadata :: AnalysisMetadata

text \<open>
  A \<open>LogSource\<close> is seen through \<open>Next\<close> only.  It is modelled by the results of its
  successive calls: a record, or an error other than \<open>io.EOF\<close>; when the list is used up,
  \<open>Next\<close> returns \<open>io.EOF\<close>.
\<close>

datatype src_event = Line ParsedLine | Fail string

type_synonym LogSource = "src_event list"

fun source_Next :: "LogSource \<Rightarrow> (error + ParsedLine) \<times> LogSource" where
  "source_Next [] = (Inl EOF, [])"
| "source_Next (Line l # rest) = (Inr l, rest)"
| "source_Next (Fail msg # rest) = (Inl (SourceError msg), rest)"

text \<open>The loop of \<open>Analyze\<close> over the engines for one record.\<close>

fun processAll :: "RuleEngine list \<Rightarrow> ParsedLine \<Rightarrow> error + RuleEngine list" where
  "processAll [] line = Inr []"
| "processAll (g # gs) line =
     (case RuleEngine_Process g line of
        Inl err \<Rightarrow> Inl err
      | Inr g' \<Rightarrow>
          (case processAll gs line of
             Inl err \<Rightarrow> Inl err
           | Inr gs' \<Rightarrow> Inr (g' # gs')))"

text \<open>
  The state of the main loop: the engines, the sources seen so far in order of first
  appearance (\<open>sourcesMap\<close> holds exactly the members of this list) and the line counter.
\<close>

record loopState =
  ls_engines :: "RuleEngine list"
  ls_sources :: "string list"
  ls_lines :: int

definition filtered_out :: "TimeRange option \<Rightarrow> ParsedLine \<Rightarrow> bool" where
  "filtered_out tr line =
     (case tr of
        None \<Rightarrow> False
      | Some r \<Rightarrow> Time_Before (Timestamp line) (Start r) \<or> Time_After (Timestamp line) (End r))"

text \<open>
  The main loop.  The context is polled before every call of \<open>Next\<close>; \<open>cancel\<close> is the
  number of polls that still find it open (\<open>None\<close> when it is never cancelled).
\<close>

fun analyzeLoop ::
  "TimeRange option \<Rightarrow> nat option \<Rightarrow> LogSource \<Rightarrow> loopState \<Rightarrow> error + loopState" where
  "analyzeLoop tr cancel [] st =
     (if cancel = Some 0 then Inl Cancelled else Inr st)"
| "analyzeLoop tr cancel (Fail msg # rest) st =
     (if cancel = Some 0 then Inl Cancelled else Inl (SourceError msg))"
| "analyzeLoop tr cancel (Line line # rest) st =
     (if cancel = Some 0 then Inl Cancelled
      else let cancel' = map_option (\<lambda>n. n - 1) cancel;
               st1 = (if Source line \<in> set (ls_sources st) then st
                      else st\<lparr>ls_sources := ls_sources st @ [Source line]\<rparr>)
           in if filtered_out tr line then analyzeLoop tr cancel' rest st1
              else (case processAll (ls_engines st1) line of
                      Inl err \<Rightarrow> Inl err
                    | Inr gs \<Rightarrow>
                        analyzeLoop tr cancel' rest
                          (st1\<lparr>ls_lines := ls_lines st1 + 1, ls_engines := gs\<rparr>)))"

text \<open>
  The loop that finalizes the engines.  \<open>clock k\<close> is the time the \<open>k\<close>-th call of
  \<open>time.Now\<close> returns during \<open>Analyze\<close> (call 0 at the start, call \<open>i + 1\<close> in the
  \<open>Finalize\<close> of engine \<open>i\<close>, the last one at the end), and \<open>order i\<close> the order in which
  the \<open>Finalize\<close> of engine \<open>i\<close> ranges over its map.
\<close>

fun finalizeAll ::
  "(nat \<Rightarrow> Time) \<Rightarrow> (nat \<Rightarrow> string list) \<Rightarrow> nat \<Rightarrow> RuleEngine list
     \<Rightarrow> RuleResult list \<times> RuleEngine list" where
  "finalizeAll clock order i [] = ([], [])"
| "finalizeAll clock order i (g # gs) =
     (let (r, g') = RuleEngine_Finalize (clock (i + 1)) (order i) g;
          (rs, gs') = finalizeAll clock order (i + 1) gs
      in (r # rs, g' # gs'))"

definition Analyze ::
  "(nat \<Rightarrow> Time) \<Rightarrow> (nat \<Rightarrow> string list) \<Rightarrow> nat option \<Rightarrow> Analyzer \<Rightarrow> LogSource
     \<Rightarrow> error + (AnalysisResult \<times> Analyzer)" where
  "Analyze clock order cancel a evs =
     (let gs0 = map RuleEngine_Reset (engines a)
      in case analyzeLoop (timeRange a) cancel evs
                \<lparr>ls_engines = gs0, ls_sources = [], ls_lines = 0\<rparr> of
           Inl err \<Rightarrow> Inl err
         | Inr st \<Rightarrow>
             (let (rs, gs') = finalizeAll clock order 0 (ls_engines st)
              in Inr (\<lparr>Results = rs,
                        Metadata = \<lparr>ConfigFile = [], Sources = ls_sources st,
                                    MetaTimeRange = timeRange a, MetaStartTime = clock 0,
                                    MetaEndTime = clock (length (engines a) + 1),
                                    LinesProcessed = ls_lines st\<rparr>\<rparr>,
                      a\<lparr>engines := gs'\<rparr>)))"

text \<open>
  The orders given for the engines are orders a range can take: the one for a sequence
  engine visits every key of its map once.
\<close>

fun engine_order_ok :: "RuleEngine \<Rightarrow> string list \<Rightarrow> bool" where
  "engine_order_ok (Seq e) ks = range_order (openSequences e) ks"
| "engine_order_ok g ks = True"

definition orders_ok :: "(nat \<Rightarrow> string list) \<Rightarrow> RuleEngine list \<Rightarrow> bool" where
  "orders_ok order gs = (\<forall>i < length gs. engine_order_ok (gs ! i) (order i))"

text \<open>
  Two rule results are the same up to timing statistics and the order of the issues of a
  sequence rule: the same rule, the same issues with the same payloads (as a multiset, and
  in the same order unless the rule is a sequence rule), and the same counters.
\<close>

definition same_result :: "RuleResult \<Rightarrow> RuleResult \<Rightarrow> bool" where
  "same_result r r' =
     (RuleName r = RuleName r' \<and> ResultRuleType r = ResultRuleType r'
      \<and> RuleDescription r = RuleDescription r'
      \<and> mset (Issues r) = mset (Issues r')
      \<and> (ResultRuleType r \<noteq> RuleTypeSequence \<longrightarrow> Issues r = Issues r')
      \<and> StatsLinesProcessed (Stats r) = StatsLinesProcessed (Stats r')
      \<and> LinesMatched (Stats r) = LinesMatched (Stats r'))"

text \<open>Two analyzers hold the same rules when they differ in the state of their engines only.\<close>

definition same_rules :: "Analyzer \<Rightarrow> Analyzer \<Rightarrow> bool" where
  "same_rules a b =
     (map RuleEngine_Reset (engines a) = map RuleEngine_Reset (engines b)
      \<and> timeRange a = timeRange b)"

text \<open>The issues a rule has when no record reached its engine.\<close>

fun issues_without_records :: "RuleEngine \<Rightarrow> Issue list" where
  "issues_without_records (Per e) =
     (if 0 < minOccurrences e then [below_issue (PeriodicEngine_Reset e)] else [])"
| "issues_without_records g = []"

text \<open>An analyzer with one periodic rule and the time range from 10 s down to 5 s.\<close>

definition ex_analyzer :: Analyzer where
  "ex_analyzer =
     \<lparr>engines = [Per (ex_per [])],
      timeRange = Some \<lparr>Start = 10 * Second, End = 5 * Second\<rparr>\<rparr>"

text \<open>An analyzer with one sequence rule.\<close>

definition ex_seq_analyzer :: Analyzer where
  "ex_seq_analyzer = \<lparr>engines = [Seq ex_seq], timeRange = None\<rparr>"

text \<open>Two sequence starts, and the engine of \<open>ex_seq\<close> after a run over them.\<close>

definition ex_starts :: LogSource where
  "ex_starts = [Line (ex_line ''START id=a'' 0 1), Line (ex_line ''START id=b'' 1 2)]"

definition ex_started :: SequenceEngine where
  "ex_started = ex_seq
     \<lparr>openSequences :=
        [''a'' \<mapsto> \<lparr>seq_correlationID = ''a'', startTime = 0, seq_source = ''app.log'',
                    seq_lineNum = 1\<rparr>,
         ''b'' \<mapsto> \<lparr>seq_correlationID = ''b'', startTime = 1 * Second,
                    seq_source = ''app.log'', seq_lineNum = 2\<rparr>],
      seq_stats := emptyStats\<lparr>StatsLinesProcessed := 2, LinesMatched := 2\<rparr>\<rparr>"

section \<open>Library functions\<close>

text \<open>
  \<open>strconv.ParseInt(s, 10, 64)\<close>: an optional sign, then one or more decimal digits and
  nothing else; the value has to fit into an int64.
\<close>

definition is_digit :: "char \<Rightarrow> bool" where
  "is_digit c = (c \<in> set ''0123456789'')"

definition digits_value :: "string \<Rightarrow> int" where
  "digits_value ds = foldl (\<lambda>acc c. 10 * acc + (int (of_char c) - 48)) 0 ds"

definition ParseInt :: "string \<Rightarrow> int option" where
  "ParseInt s =
     (let neg = (s \<noteq> [] \<and> hd s = CHR ''-'');
          ds = (if s \<noteq> [] \<and> (hd s = CHR ''+'' \<or> hd s = CHR ''-'') then tl s else s)
      in if ds = [] \<or> \<not> list_all is_digit ds then None
         else let un = digits_value ds
              in if \<not> neg \<and> 2 ^ 63 \<le> un then None
                 else if neg \<and> 2 ^ 63 < un then None
                 else Some (if neg then - un else un))"

text \<open>
  \<open>time.Unix(sec, 0)\<close> and \<open>time.UnixMilli(msec)\<close> as instants counted from Go's zero
  time; the Unix epoch lies 62135596800 seconds after it.
\<close>

definition unixToInternal :: int where
  "unixToInternal = 62135596800"

definition time_Unix :: "int \<Rightarrow> Time" where
  "time_Unix secs = (secs + unixToInternal) * Second"

definition time_UnixMilli :: "int \<Rightarrow> Time" where
  "time_UnixMilli msec = msec * 1000000 + unixToInternal * Second"

text \<open>Go's integer division truncates towards zero.\<close>

definition go_div :: "int \<Rightarrow> int \<Rightarrow> int" where
  "go_div a b = sgn a * sgn b * (\<bar>a\<bar> div \<bar>b\<bar>)"

definition HasPrefix :: "string \<Rightarrow> string \<Rightarrow> bool" where
  "HasPrefix s p = (take (length p) s = p)"

text \<open>
  The functions of Go's library whose result the model does not compute are arguments of
  the model: \<open>time.Parse\<close> (\<open>None\<close> when it returns an error), \<open>strings.TrimSpace\<close> and
  \<open>sort.Slice\<close> (which sorts by the given less function and need not be stable).
\<close>

record 'a golib =
  time_Parse :: "string \<Rightarrow> string \<Rightarrow> Time option"
  TrimSpace :: "string \<Rightarrow> string"
  sort_Slice :: "('a \<Rightarrow> 'a \<Rightarrow> bool) \<Rightarrow> 'a list \<Rightarrow> 'a list"

section \<open>Timestamp extractor\<close>

record TimestampExtractor =
  ext_pattern :: regexp
  ext_layout :: string

text \<open>\<open>Extract\<close> returns a time, or an error (\<open>None\<close>): no match.\<close>

definition Extract :: "'a golib \<Rightarrow> TimestampExtractor \<Rightarrow> string \<Rightarrow> Time option" where
  "Extract lib e line =
     (case ext_pattern e line of
        None \<Rightarrow> None
      | Some ms \<Rightarrow>
          if length ms < 2 then None
          else time_Parse lib (ext_layout e) (ms ! 1))"

section \<open>Format detector\<close>

record TimestampFormat =
  FormatName :: string
  Pattern :: regexp
  PatternStr :: string
  Layout :: string
  Examples :: "string list"
  Ambiguous :: bool

record FormatMatch =
  Format :: TimestampFormat
  Confidence :: rat
  MatchCount :: int
  SampleLine :: string
  ParsedTime :: Time

record DetectionResult =
  Matches :: "FormatMatch list"
  SampledLines :: int
  ParsedLines :: int
  AmbiguityNote :: string

record Detector =
  formats :: "TimestampFormat list"
  sampleSize :: int

definition parseTimestamp :: "'a golib \<Rightarrow> string \<Rightarrow> string \<Rightarrow> Time option" where
  "parseTimestamp lib tsStr layout =
     (if layout = ''UNIX_SECONDS''
      then (case ParseInt tsStr of
              None \<Rightarrow> None
            | Some secs \<Rightarrow>
                if secs < 0 \<or> 4102444800 < secs then None else Some (time_Unix secs))
      else if layout = ''UNIX_MILLIS''
      then (case ParseInt tsStr of
              None \<Rightarrow> None
            | Some millis \<Rightarrow>
                let secs = go_div millis 1000
                in if secs < 0 \<or> 4102444800 < secs then None
                   else Some (time_UnixMilli millis))
      else time_Parse lib layout tsStr)"

record formatStats =
  fs_format :: TimestampFormat
  matchCount :: int
  sampleLine :: string
  parsedTime :: Time

text \<open>The inner loop of \<open>DetectFromLines\<close>: one (trimmed) line against the formats.\<close>

fun formatLoop ::
  "'a golib \<Rightarrow> string \<Rightarrow> TimestampFormat list \<Rightarrow> (string \<rightharpoonup> formatStats)
     \<Rightarrow> (string \<rightharpoonup> formatStats)" where
  "formatLoop lib line [] stats = stats"
| "formatLoop lib line (format # rest) stats =
     (case Pattern format line of
        None \<Rightarrow> formatLoop lib line rest stats
      | Some ms \<Rightarrow>
          if length ms < 2 then formatLoop lib line rest stats
          else (case parseTimestamp lib (ms ! 1) (Layout format) of
                  None \<Rightarrow> formatLoop lib line rest stats
                | Some t \<Rightarrow>
                    let key = FormatName format;
                        s = (case stats key of
                               None \<Rightarrow> \<lparr>fs_format = format, matchCount = 0,
                                         sampleLine = line, parsedTime = t\<rparr>
                             | Some s0 \<Rightarrow> s0)
                    in formatLoop lib line rest
                         (stats(key \<mapsto> s\<lparr>matchCount := matchCount s + 1\<rparr>))))"

text \<open>A line the detector skips: blank, or a comment.\<close>

definition skipped :: "'a golib \<Rightarrow> string \<Rightarrow> bool" where
  "skipped lib line = (TrimSpace lib line = [] \<or> HasPrefix (TrimSpace lib line) ''#'')"

fun lineLoop ::
  "'a golib \<Rightarrow> Detector \<Rightarrow> string list \<Rightarrow> (string \<rightharpoonup> formatStats)
     \<Rightarrow> (string \<rightharpoonup> formatStats)" where
  "lineLoop lib d [] stats = stats"
| "lineLoop lib d (line # rest) stats =
     (if skipped lib line then lineLoop lib d rest stats
      else lineLoop lib d rest (formatLoop lib (TrimSpace lib line) (formats d) stats))"

definition match_less :: "FormatMatch \<Rightarrow> FormatMatch \<Rightarrow> bool" where
  "match_less x y =
     (if Confidence x \<noteq> Confidence y then Confidence y < Confidence x
      else length (PatternStr (Format y)) < length (PatternStr (Format x)))"

definition ambiguityNote :: string where
  "ambiguityNote = ''This format has date ordering ambiguity (MM/DD vs DD/MM). ''
     @ ''Verify the layout matches your log format. ''
     @ ''For European format (DD/MM/YYYY), use layout: \"02/01/2006 15:04:05\"''"

text \<open>
  \<open>DetectFromLines\<close>.  The confidence is a float64 quotient of two counts; the model
  keeps the exact quotient.  \<open>ks\<close> is the order in which the range over the map \<open>stats\<close>
  visits its keys.
\<close>

definition DetectFromLines ::
  "FormatMatch golib \<Rightarrow> Detector \<Rightarrow> string list \<Rightarrow> string list \<Rightarrow> DetectionResult" where
  "DetectFromLines lib d ks lines =
     (if lines = []
      then \<lparr>Matches = [], SampledLines = 0, ParsedLines = 0, AmbiguityNote = []\<rparr>
      else let stats = lineLoop lib d lines Map.empty;
               ms = map (\<lambda>s. \<lparr>Format = fs_format s,
                                 Confidence = of_int (matchCount s) / of_int (int (length lines)),
                                 MatchCount = matchCount s, SampleLine = sampleLine s,
                                 ParsedTime = parsedTime s\<rparr>)
                      (List.map_filter stats ks);
               sorted_ms = sort_Slice lib match_less ms
           in \<lparr>Matches = sorted_ms, SampledLines = int (length lines),
               ParsedLines = (if sorted_ms \<noteq> [] then MatchCount (hd sorted_ms) else 0),
               AmbiguityNote = (if sorted_ms \<noteq> [] \<and> Ambiguous (Format (hd sorted_ms))
                                then ambiguityNote else [])\<rparr>)"

text \<open>
  A file as \<open>sampleFile\<close> reads it: \<open>os.Open\<close> fails, or the scanner yields the lines of
  the file, one for each call of \<open>Scan\<close> that returns true, and possibly fails at some line
  (a line longer than the buffer, a read error).  The loop calls \<open>Scan\<close> before it tests
  the size of the sample, so it stops with the sample when \<open>Scan\<close> has yielded a line and
  the sample is full, and with the error of the scanner when \<open>Scan\<close> has failed.
  \<open>sampleFile\<close> keeps the lines that are neither blank nor comments.
\<close>

datatype scan_event = Scanned string | ScanFail string

fun sampleLoop ::
  "'a golib \<Rightarrow> Detector \<Rightarrow> scan_event list \<Rightarrow> string list \<Rightarrow> error + string list" where
  "sampleLoop lib d [] acc = Inr acc"
| "sampleLoop lib d (ScanFail msg # rest) acc = Inl (SourceError msg)"
| "sampleLoop lib d (Scanned line # rest) acc =
     (if int (length acc) < sampleSize d
      then (if TrimSpace lib line \<noteq> [] \<and> \<not> HasPrefix (TrimSpace lib line) ''#''
            then sampleLoop lib d rest (acc @ [line])
            else sampleLoop lib d rest acc)
      else Inr acc)"

definition sampleFile ::
  "'a golib \<Rightarrow> Detector \<Rightarrow> error + scan_event list \<Rightarrow> error + string list" where
  "sampleFile lib d file =
     (case file of
        Inl err \<Rightarrow> Inl err
      | Inr events \<Rightarrow> sampleLoop lib d events [])"

definition DetectFromFile ::
  "FormatMatch golib \<Rightarrow> Detector \<Rightarrow> string list \<Rightarrow> error + scan_event list
     \<Rightarrow> error + DetectionResult" where
  "DetectFromFile lib d ks file =
     (case sampleFile lib d file of
        Inl err \<Rightarrow> Inl err
      | Inr lines \<Rightarrow> Inr (DetectFromLines lib d ks lines))"

text \<open>
  Words of the specification: the lines of a sample that are neither blank nor comments,
  and the lines that match and parse under a format.
\<close>

definition counted_lines :: "'a golib \<Rightarrow> string list \<Rightarrow> string list" where
  "counted_lines lib lines = filter (\<lambda>l. \<not> skipped lib l) lines"

definition parses :: "'a golib \<Rightarrow> TimestampFormat \<Rightarrow> string \<Rightarrow> bool" where
  "parses lib format line =
     (case Pattern format (TrimSpace lib line) of
        None \<Rightarrow> False
      | Some ms \<Rightarrow> 2 \<le> length ms \<and> parseTimestamp lib (ms ! 1) (Layout format) \<noteq> None)"

section \<open>Example library, extractor and detector\<close>

text \<open>
  \<open>strings.TrimSpace\<close> on a line of ASCII characters, and \<open>sort.Slice\<close> on a slice short
  enough (at most 12 elements) for Go to sort it by insertion.
\<close>

definition is_space :: "char \<Rightarrow> bool" where
  "is_space c = (c \<in> set [CHR '' '', CHR 0x09, CHR 0x0A, CHR 0x0B, CHR 0x0C, CHR 0x0D])"

definition ascii_TrimSpace :: "string \<Rightarrow> string" where
  "ascii_TrimSpace s = rev (dropWhile is_space (rev (dropWhile is_space s)))"

fun insert_back :: "('a \<Rightarrow> 'a \<Rightarrow> bool) \<Rightarrow> 'a \<Rightarrow> 'a list \<Rightarrow> 'a list" where
  "insert_back lt x [] = [x]"
| "insert_back lt x (y # ys) = (if lt x y then y # insert_back lt x ys else x # y # ys)"

definition insertionSort :: "('a \<Rightarrow> 'a \<Rightarrow> bool) \<Rightarrow> 'a list \<Rightarrow> 'a list" where
  "insertionSort lt xs = rev (foldl (\<lambda>acc x. insert_back lt x acc) [] xs)"

text \<open>
  \<open>time.Parse\<close> restricted to what the examples need.  A layout that holds no element of
  the reference time (such as the tag \<open>UNIX_SECONDS\<close>) is matched literally: the value has
  to equal the layout, and the time is January 1 of year 0.  For the layout
  \<open>2006-01-02T15:04:05\<close> the example accepts the two timestamps it is given.
\<close>

definition ex_time_Parse :: "string \<Rightarrow> string \<Rightarrow> Time option" where
  "ex_time_Parse layout v =
     (if layout = ''2006-01-02T15:04:05''
      then (if v = ''2024-01-15T10:30:00'' then Some (time_Unix 1705314600)
            else if v = ''2024-01-15T10:30:05'' then Some (time_Unix 1705314605)
            else None)
      else if v = layout then Some (- 31622400 * Second)
      else None)"

definition ex_lib :: "FormatMatch golib" where
  "ex_lib = \<lparr>time_Parse = ex_time_Parse, TrimSpace = ascii_TrimSpace,
             sort_Slice = insertionSort\<rparr>"

text \<open>
  A regular expression that captures ten digits at the start of a line, and an extractor
  for Unix seconds.
\<close>

definition ex_unix_re :: regexp where
  "ex_unix_re s =
     (if 10 \<le> length s \<and> list_all is_digit (take 10 s) then Some [take 10 s, take 10 s]
      else None)"

definition ex_extractor :: TimestampExtractor where
  "ex_extractor = \<lparr>ext_pattern = ex_unix_re, ext_layout = ''UNIX_SECONDS''\<rparr>"

text \<open>
  A regular expression for the pattern of the catalog's format "ISO 8601" (four digits,
  two dashes, a \<open>T\<close> and two colons between pairs of digits, at the start of the line) on
  the lines of the example: it looks at the first digit and the separators.  The detector
  holds this one format.
\<close>

definition backslash :: char where
  "backslash = CHR 0x5C"

definition ex_iso_re :: regexp where
  "ex_iso_re s =
     (if 19 \<le> length s \<and> is_digit (s ! 0) \<and> s ! 4 = CHR ''-'' \<and> s ! 7 = CHR ''-''
         \<and> s ! 10 = CHR ''T'' \<and> s ! 13 = CHR '':'' \<and> s ! 16 = CHR '':''
      then Some [take 19 s, take 19 s] else None)"

definition ex_iso_format :: TimestampFormat where
  "ex_iso_format =
     \<lparr>FormatName = ''ISO 8601'', Pattern = ex_iso_re,
      PatternStr = ''^('' @ concat [backslash # ''d{4}-'', backslash # ''d{2}-'',
          backslash # ''d{2}T'', backslash # ''d{2}:'', backslash # ''d{2}:'',
          backslash # ''d{2})''],
      Layout = ''2006-01-02T15:04:05'', Examples = [''2024-01-15T10:30:00''],
      Ambiguous = False\<rparr>"

definition ex_detector :: Detector where
  "ex_detector = \<lparr>formats = [ex_iso_format], sampleSize = 100\<rparr>"

definition ex_sample :: "string list" where
  "ex_sample =
     [''# This is a comment'', ''2024-01-15T10:30:00 Real log line'',
      ''# Another comment'', ''2024-01-15T10:30:05 Another real line'']"

section \<open>Merged source\<close>

text \<open>
  The merged source keeps one pending record for each source that is not used up in a
  binary heap, an array ordered by \<open>container/heap\<close> through the methods \<open>Less\<close> and
  \<open>Swap\<close> of \<open>lineHeap\<close>.  \<open>Less\<close> compares the timestamps only.  The functions \<open>up\<close>,
  \<open>down\<close>, \<open>Init\<close>, \<open>Push\<close> and \<open>Pop\<close> of \<open>container/heap\<close> are modelled as they are
  written; they index the array within its bounds whenever the index they are given is
  (indices are machine integers in Go, far from overflow for a heap of one item per
  source).  The field \<open>line\<close> of \<open>heapItem\<close> is \<open>item_line\<close> here.
\<close>

record heapItem =
  item_line :: ParsedLine
  sourceIdx :: nat

type_synonym lineHeap = "heapItem list"

definition Less :: "lineHeap \<Rightarrow> nat \<Rightarrow> nat \<Rightarrow> bool" where
  "Less h i j = Time_Before (Timestamp (item_line (h ! i))) (Timestamp (item_line (h ! j)))"

definition Swap :: "lineHeap \<Rightarrow> nat \<Rightarrow> nat \<Rightarrow> lineHeap" where
  "Swap h i j = h[i := h ! j, j := h ! i]"

text \<open>\<open>heap.up\<close>: the parent of \<open>j\<close> is \<open>(j - 1) / 2\<close>, which is \<open>j\<close> itself for the root.\<close>

function up :: "lineHeap \<Rightarrow> nat \<Rightarrow> lineHeap" where
  "up h j =
     (let i = (j - 1) div 2
      in if i = j \<or> \<not> Less h j i then h else up (Swap h i j) i)"
  by pat_completeness auto
termination
  by (relation "measure (\<lambda>(h, j). j)") auto

declare up.simps [simp del]

text \<open>\<open>heap.down\<close> on the first \<open>n\<close> elements.\<close>

function down :: "lineHeap \<Rightarrow> nat \<Rightarrow> nat \<Rightarrow> lineHeap" where
  "down h i n =
     (let j1 = 2 * i + 1
      in if n \<le> j1 then h
         else let j = (if j1 + 1 < n \<and> Less h (j1 + 1) j1 then j1 + 1 else j1)
              in if \<not> Less h j i then h else down (Swap h i j) j n)"
  by pat_completeness auto
termination
  by (relation "measure (\<lambda>(h, i, n). n - i)") auto

declare down.simps [simp del]

text \<open>\<open>heap.Init\<close>: \<open>down\<close> from index \<open>n / 2 - 1\<close> to index 0.\<close>

fun initDown :: "lineHeap \<Rightarrow> nat \<Rightarrow> nat \<Rightarrow> lineHeap" where
  "initDown h n 0 = h"
| "initDown h n (Suc i) = initDown (down h i n) n i"

definition heap_Init :: "lineHeap \<Rightarrow> lineHeap" where
  "heap_Init h = initDown h (length h) (length h div 2)"

definition heap_Push :: "lineHeap \<Rightarrow> heapItem \<Rightarrow> lineHeap" where
  "heap_Push h x = up (h @ [x]) (length (h @ [x]) - 1)"

text \<open>\<open>heap.Pop\<close> swaps the root to the end, restores the heap before it and takes it off.\<close>

definition heap_Pop :: "lineHeap \<Rightarrow> error + (heapItem \<times> lineHeap)" where
  "heap_Pop h =
     (if h = [] then Inl (Panic ''index out of range'')
      else let n = length h - 1;
               h1 = down (Swap h 0 n) 0 n
           in Inr (h1 ! n, take n h1))"

record MergedSource =
  sources :: "LogSource list"
  heap :: lineHeap
  closed :: bool

definition NewMergedSource :: "LogSource list \<Rightarrow> MergedSource" where
  "NewMergedSource srcs = \<lparr>sources = srcs, heap = [], closed = False\<rparr>"

text \<open>The loop of \<open>initHeap\<close> over the sources, from index \<open>i\<close>.\<close>

function initLoop :: "nat \<Rightarrow> MergedSource \<Rightarrow> error option \<times> MergedSource" where
  "initLoop i m =
     (if i < length (sources m)
      then (case source_Next (sources m ! i) of
              (Inl err, s') \<Rightarrow>
                if err = EOF then initLoop (i + 1) (m\<lparr>sources := (sources m)[i := s']\<rparr>)
                else (Some err, m\<lparr>sources := (sources m)[i := s']\<rparr>)
            | (Inr l, s') \<Rightarrow>
                initLoop (i + 1)
                  (m\<lparr>sources := (sources m)[i := s'],
                     heap := heap_Push (heap m) \<lparr>item_line = l, sourceIdx = i\<rparr>\<rparr>))
      else (None, m))"
  by pat_completeness auto
termination
  by (relation "measure (\<lambda>(i, m). length (sources m) - i)") auto

declare initLoop.simps [simp del]

definition initHeap :: "MergedSource \<Rightarrow> error option \<times> MergedSource" where
  "initHeap m = initLoop 0 (m\<lparr>heap := heap_Init (heap m)\<rparr>)"

text \<open>
  The second half of \<open>Next\<close>: pop the oldest record and refill the heap from the source
  the record came from.
\<close>

definition popAndRefill :: "MergedSource \<Rightarrow> (error + ParsedLine) \<times> MergedSource" where
  "popAndRefill m1 =
     (case heap_Pop (heap m1) of
        Inl err \<Rightarrow> (Inl err, m1)
      | Inr (item, h') \<Rightarrow>
          if length (sources m1) \<le> sourceIdx item
          then (Inl (Panic ''index out of range''), m1\<lparr>heap := h'\<rparr>)
          else (case source_Next (sources m1 ! sourceIdx item) of
                  (Inr nextLine, s') \<Rightarrow>
                    (Inr (item_line item),
                     m1\<lparr>sources := (sources m1)[sourceIdx item := s'],
                        heap := heap_Push h' \<lparr>item_line = nextLine, sourceIdx = sourceIdx item\<rparr>\<rparr>)
                | (Inl err, s') \<Rightarrow>
                    if err = EOF
                    then (Inr (item_line item),
                          m1\<lparr>sources := (sources m1)[sourceIdx item := s'], heap := h'\<rparr>)
                    else (Inl err,
                          m1\<lparr>sources := (sources m1)[sourceIdx item := s'], heap := h'\<rparr>)))"

definition MergedSource_Next :: "MergedSource \<Rightarrow> (error + ParsedLine) \<times> MergedSource" where
  "MergedSource_Next m =
     (case (if heap m = [] \<and> \<not> closed m then initHeap m else (None, m)) of
        (Some err, m1) \<Rightarrow> (Inl err, m1)
      | (None, m1) \<Rightarrow> if heap m1 = [] then (Inl EOF, m1) else popAndRefill m1)"

text \<open>
  \<open>Close\<close> also closes every source and returns the first error; the model keeps the flag,
  the only part of it \<open>Next\<close> reads.
\<close>

definition MergedSource_Close :: "MergedSource \<Rightarrow> MergedSource" where
  "MergedSource_Close m = m\<lparr>closed := True\<rparr>"

text \<open>
  The heap property of the first \<open>n\<close> elements of the array for the order of \<open>Less\<close>: no
  element is before its parent.  While \<open>up\<close> moves the element at \<open>k\<close> towards the root,
  the property holds except between \<open>k\<close> and its parent; while \<open>down\<close> moves it towards
  the leaves, except between \<open>k\<close> and its children.
\<close>

definition key :: "heapItem \<Rightarrow> Time" where
  "key x = Timestamp (item_line x)"

definition parent :: "nat \<Rightarrow> nat" where
  "parent c = (c - 1) div 2"

definition is_heap :: "nat \<Rightarrow> lineHeap \<Rightarrow> bool" where
  "is_heap n h = (\<forall>c. 0 < c \<and> c < n \<longrightarrow> key (h ! parent c) \<le> key (h ! c))"

definition heap_except_up :: "nat \<Rightarrow> lineHeap \<Rightarrow> nat \<Rightarrow> bool" where
  "heap_except_up n h k =
     ((\<forall>c. 0 < c \<and> c < n \<and> c \<noteq> k \<longrightarrow> key (h ! parent c) \<le> key (h ! c))
      \<and> (\<forall>c. 0 < c \<and> c < n \<and> parent c = k \<and> 0 < k \<longrightarrow> key (h ! parent k) \<le> key (h ! c)))"

definition heap_except_down :: "nat \<Rightarrow> lineHeap \<Rightarrow> nat \<Rightarrow> bool" where
  "heap_except_down n h k =
     ((\<forall>c. 0 < c \<and> c < n \<and> parent c \<noteq> k \<longrightarrow> key (h ! parent c) \<le> key (h ! c))
      \<and> (\<forall>c. 0 < c \<and> c < n \<and> parent c = k \<and> 0 < k \<longrightarrow> key (h ! parent k) \<le> key (h ! c)))"

text \<open>
  The records a source still has to yield, in order; the events of a source that are
  errors are left out.  A source is sorted when these records are in non-decreasing
  order of timestamp.
\<close>

fun lines_of :: "LogSource \<Rightarrow> ParsedLine list" where
  "lines_of [] = []"
| "lines_of (Line l # r) = l # lines_of r"
| "lines_of (Fail msg # r) = lines_of r"








text \<open>
  The results of \<open>n\<close> successive calls of \<open>Next\<close>, the records among results, and the
  results after which the stream goes on: a record, or the end of the stream, but not an
  error of a source (or a panic), which \<open>Analyze\<close> returns at once.
\<close>

fun pull :: "nat \<Rightarrow> MergedSource \<Rightarrow> (error + ParsedLine) list" where
  "pull 0 m = []"
| "pull (Suc n) m = (case MergedSource_Next m of (r, m') \<Rightarrow> r # pull n m')"


fun proceeds :: "error + ParsedLine \<Rightarrow> bool" where
  "proceeds (Inr l) = True"
| "proceeds (Inl e) = (e = EOF)"

text \<open>
  The heap \<open>Next\<close> pops from: the heap of the merged source, filled first when it is empty
  and the merged source is not closed.
\<close>

definition pendingHeap :: "MergedSource \<Rightarrow> lineHeap" where
  "pendingHeap m = (if heap m = [] \<and> \<not> closed m then heap (snd (initHeap m)) else heap m)"

text \<open>A source that returns no error but the end of the stream.\<close>

definition unfailing :: "LogSource \<Rightarrow> bool" where
  "unfailing s = (s = map Line (lines_of s))"

text \<open>
  Example sources: a record of a file at a time in seconds; three files with one record
  each at the same time; the files \<open>A\<close> and \<open>B\<close> with interleaved times; and a source
  that fails between two records, as a file source does when the second of its three
  files cannot be opened.
\<close>

definition ex_rec :: "string \<Rightarrow> int \<Rightarrow> ParsedLine" where
  "ex_rec src secs = \<lparr>Raw = ''event'', Timestamp = secs * Second, Source = src, LineNum = 1\<rparr>"

definition ex_ties :: "LogSource list" where
  "ex_ties = [[Line (ex_rec ''a.log'' 0)], [Line (ex_rec ''b.log'' 0)],
              [Line (ex_rec ''c.log'' 0)]]"




section \<open>Properties of durations\<close>


lemma Time_Sub_add: "is_Duration d \<Longrightarrow> Time_Sub (t + d) t = d"
  by (simp add: Time_Sub_def is_Duration_def)

lemma Time_Sub_exact: "is_Duration (t - u) \<Longrightarrow> Time_Sub t u = t - u"
  by (simp add: Time_Sub_def is_Duration_def)

text \<open>
  Against a bound below the largest duration, the saturated difference compares as the
  exact one.
\<close>

lemma Time_Sub_le_iff:
  "minDuration \<le> d \<Longrightarrow> d < maxDuration \<Longrightarrow> (Time_Sub t u \<le> d) = (t - u \<le> d)"
  by (auto simp: Time_Sub_def Let_def minDuration_def maxDuration_def)


section \<open>Properties of the conditional engine\<close>

lemma removeLoop_nonzero:
  "cond_corrField e \<noteq> 0 \<Longrightarrow>
   removeLoop e c t rest new = Inr (new @ filter (\<lambda>x. \<not> satisfied e c t x) rest)"
  by (induction rest arbitrary: new) auto

lemma removeLoop_none:
  "\<forall>x\<in>set rest. \<not> satisfied e c t x \<Longrightarrow> removeLoop e c t rest new = Inr (new @ rest)"
  by (induction rest arbitrary: new) auto

text \<open>
  Without a correlation group the triggers visited so far are exactly \<open>newTriggers\<close>, so
  the slice taken at the first satisfied trigger is the rest of the list: the bound is in
  range and the loop does not panic.
\<close>

lemma removeLoop_first:
  "cond_corrField e = 0 \<Longrightarrow> triggers e = new @ pre @ x # post \<Longrightarrow>
   \<forall>u\<in>set pre. \<not> satisfied e c t u \<Longrightarrow> satisfied e c t x \<Longrightarrow>
   removeLoop e c t (pre @ x # post) new = Inr (new @ pre @ post)"
  by (induction pre arbitrary: new) auto

lemma cond_checkTrigger_fields:
  "cond_corrField (cond_checkTrigger e line) = cond_corrField e"
  "cond_timeout (cond_checkTrigger e line) = cond_timeout e"
  "expectedPattern (cond_checkTrigger e line) = expectedPattern e"
  by (auto simp: cond_checkTrigger_def Let_def split: option.splits)

lemma cond_Process_expected:
  assumes "expectedPattern e (Raw line) = Some ms"
  shows "ConditionalEngine_Process e line =
     removeSatisfiedTriggers (cond_checkTrigger e line) (cond_corrID e ms) (Timestamp line)"
  using assms
  by (simp add: ConditionalEngine_Process_def Let_def cond_checkTrigger_fields cond_corrID_def)

lemma satisfied_checkTrigger:
  "satisfied (cond_checkTrigger e line) c t x =
     (if 0 < cond_corrField e then correlationID x = c \<and> in_window e t x
      else in_window e t x)"
  by (simp add: satisfied_def in_window_def cond_checkTrigger_fields)

lemma remove_correlated:
  assumes "cond_corrField e \<noteq> 0"
  shows "removeSatisfiedTriggers (cond_checkTrigger e line) c t =
     Inr ((cond_checkTrigger e line)
           \<lparr>triggers := filter (\<lambda>x. \<not> satisfied (cond_checkTrigger e line) c t x)
                          (pending e line)\<rparr>)"
proof -
  have "cond_corrField (cond_checkTrigger e line) \<noteq> 0"
    using assms by (simp add: cond_checkTrigger_fields)
  from removeLoop_nonzero[OF this, of c t "pending e line" "[]"]
  show ?thesis by (simp add: removeSatisfiedTriggers_def pending_def)
qed

lemma remove_uncorrelated_hit:
  assumes z: "cond_corrField e = 0"
    and sp: "pending e line = pre @ x # post" "in_window e t x"
      "\<forall>u\<in>set pre. \<not> in_window e t u"
  shows "removeSatisfiedTriggers (cond_checkTrigger e line) c t =
     Inr ((cond_checkTrigger e line)\<lparr>triggers := pre @ post\<rparr>)"
proof -
  let ?e2 = "cond_checkTrigger e line"
  have z2: "cond_corrField ?e2 = 0"
    using z by (simp add: cond_checkTrigger_fields)
  have "removeLoop ?e2 c t (pre @ x # post) [] = Inr ([] @ pre @ post)"
    by (rule removeLoop_first[OF z2])
      (use sp z in \<open>simp_all add: satisfied_checkTrigger pending_def\<close>)
  then show ?thesis
    using sp(1) by (simp add: removeSatisfiedTriggers_def pending_def)
qed

lemma remove_uncorrelated_miss:
  assumes z: "cond_corrField e = 0"
    and "\<forall>u\<in>set (pending e line). \<not> in_window e t u"
  shows "removeSatisfiedTriggers (cond_checkTrigger e line) c t = Inr (cond_checkTrigger e line)"
proof -
  let ?e2 = "cond_checkTrigger e line"
  have "\<forall>x\<in>set (triggers ?e2). \<not> satisfied ?e2 c t x"
    using assms by (simp add: satisfied_checkTrigger pending_def)
  from removeLoop_none[OF this, of "[]"]
  show ?thesis by (simp add: removeSatisfiedTriggers_def)
qed

text \<open>
  C1.  When a record matches the expected regex, \<open>Process\<close> returns normally and resolves
  the pending triggers (those held once the record's own trigger match, if any, has been
  appended) as follows.  With a correlation group configured (\<open>corrField > 0\<close>) the
  triggers kept are exactly those that do not both carry the expected event's id and lie
  within the timeout (elapsed time \<open>expected.ts - trigger.ts \<le> timeout\<close>, the difference
  being the duration \<open>Time.Sub\<close> returns): every trigger with that id in the window is
  removed, and none with another id or an age above the timeout.  With \<open>corrField = 0\<close>
  exactly one trigger is removed, the oldest pending one (the first in the order the
  triggers were recorded) that lies in the window, and all others remain; when none lies
  in the window nothing is removed.  A negative \<open>corrField\<close>, which
  \<open>validateConditionalRule\<close> accepts, configures no correlation group either (no id is
  read, and the satisfaction test takes the branch commented ``No correlation''), but the
  guard \<open>corrField == 0\<close> of the \<open>break\<close> fails: then every pending trigger in the window is
  removed, not only the oldest, against the claim and against the comment ``Without
  correlation, only satisfy the first matching trigger''.
\<close>

theorem C1_expected_match_removes_satisfied:
  assumes "expectedPattern e (Raw line) = Some ms"
  shows "\<exists>e'. ConditionalEngine_Process e line = Inr e' \<and>
     (0 < cond_corrField e \<longrightarrow>
        triggers e' = filter (\<lambda>t. \<not> (correlationID t = cond_corrID e ms
                                      \<and> in_window e (Timestamp line) t)) (pending e line)) \<and>
     (cond_corrField e = 0 \<longrightarrow>
        (if \<exists>t\<in>set (pending e line). in_window e (Timestamp line) t
         then \<exists>pre t post. pending e line = pre @ t # post
                \<and> in_window e (Timestamp line) t
                \<and> (\<forall>u\<in>set pre. \<not> in_window e (Timestamp line) u)
                \<and> triggers e' = pre @ post
         else triggers e' = pending e line)) \<and>
     (cond_corrField e < 0 \<longrightarrow>
        triggers e' = filter (\<lambda>t. \<not> in_window e (Timestamp line) t) (pending e line))"
proof -
  let ?t = "Timestamp line"
  note proc = cond_Process_expected[OF assms]
  show ?thesis
  proof (cases "cond_corrField e = 0")
    case False
    from remove_correlated[OF False, of line "cond_corrID e ms" ?t]
    show ?thesis
      using False by (auto simp: proc satisfied_checkTrigger)
  next
    case z: True
    show ?thesis
    proof (cases "\<exists>t\<in>set (pending e line). in_window e ?t t")
      case True
      then obtain pre x post where sp: "pending e line = pre @ x # post" "in_window e ?t x"
          "\<forall>u\<in>set pre. \<not> in_window e ?t u"
        using split_list_first_prop[of "pending e line" "in_window e ?t"] by blast
      from remove_uncorrelated_hit[OF z sp, of "cond_corrID e ms"]
      have "ConditionalEngine_Process e line =
          Inr ((cond_checkTrigger e line)\<lparr>triggers := pre @ post\<rparr>)"
        by (simp add: proc)
      then show ?thesis
        using z True sp by auto
    next
      case False
      then have "\<forall>u\<in>set (pending e line). \<not> in_window e ?t u"
        by simp
      from remove_uncorrelated_miss[OF z this, of "cond_corrID e ms"]
      show ?thesis
        using z False by (simp add: proc pending_def)
    qed
  qed
qed

lemma ex_prefix_re_ALERT:
  "ex_prefix_re ''ALERT code='' ''ALERT code=500'' = Some [''ALERT code=500'', ''500'']"
  by (simp add: ex_prefix_re_def)

text \<open>
  On the rule with the correlation group an alert for 500 removes the trigger 500 and
  keeps the trigger 404.  On the rule with \<open>correlation_field: -1\<close> the alert at 5 s removes
  both pending triggers (0 s and 1 s, both within the 10 s timeout), where the claim removes
  the oldest only.
\<close>

theorem C1_witness:
  "(\<exists>e'. ConditionalEngine_Process ex_cond (ex_line ''ALERT code=500'' 5 3) = Inr e' \<and>
     triggers e' =
       [\<lparr>correlationID = ''404'', timestamp = 1 * Second, source = ''app.log'', lineNum = 2\<rparr>])
   \<and> (\<exists>e'. ConditionalEngine_Process ex_cond_neg (ex_line ''ALERT code=500'' 5 3) = Inr e' \<and>
     triggers e' = [])"
proof -
  have m: "expectedPattern ex_cond (Raw (ex_line ''ALERT code=500'' 5 3))
      = Some [''ALERT code=500'', ''500'']"
    by (simp add: ex_cond_def ex_line_def ex_prefix_re_ALERT)
  have p: "pending ex_cond (ex_line ''ALERT code=500'' 5 3) = triggers ex_cond"
    by (simp add: pending_def cond_checkTrigger_def ex_cond_def ex_line_def ex_prefix_re_def)
  have mn: "expectedPattern ex_cond_neg (Raw (ex_line ''ALERT code=500'' 5 3))
      = Some [''ALERT code=500'', ''500'']"
    by (simp add: ex_cond_neg_def ex_line_def ex_prefix_re_ALERT)
  have pn: "pending ex_cond_neg (ex_line ''ALERT code=500'' 5 3) = triggers ex_cond_neg"
    by (simp add: pending_def cond_checkTrigger_def ex_cond_neg_def ex_line_def
        ex_prefix_re_def)
  have 1: "\<exists>e'. ConditionalEngine_Process ex_cond (ex_line ''ALERT code=500'' 5 3) = Inr e' \<and>
     triggers e' =
       [\<lparr>correlationID = ''404'', timestamp = 1 * Second, source = ''app.log'', lineNum = 2\<rparr>]"
    using C1_expected_match_removes_satisfied[OF m]
    by (simp add: p)
      (simp add: ex_cond_def ex_line_def cond_corrID_def in_window_def Time_Sub_def
        maxDuration_def minDuration_def Second_def)
  have 2: "\<exists>e'. ConditionalEngine_Process ex_cond_neg (ex_line ''ALERT code=500'' 5 3) = Inr e'
      \<and> triggers e' = []"
    using C1_expected_match_removes_satisfied[OF mn]
    by (simp add: pn)
      (simp add: ex_cond_neg_def ex_line_def in_window_def Time_Sub_def
        maxDuration_def minDuration_def Second_def)
  show ?thesis using 1 2 by blast
qed





section \<open>Properties of the sequence engine\<close>

lemma seq_checkStart_fields:
  "seq_checkStart e line = Inr e1 \<Longrightarrow>
     seq_corrField e1 = seq_corrField e \<and> seq_timeout e1 = seq_timeout e
     \<and> endPattern e1 = endPattern e \<and> startPattern e1 = startPattern e
     \<and> seq_name e1 = seq_name e \<and> seq_description e1 = seq_description e"
  by (auto simp: seq_checkStart_def Let_def split: option.splits if_splits)

lemma seq_checkStart_keyed:
  "seq_checkStart e line = Inr e1 \<Longrightarrow> seq_keyed e \<Longrightarrow> seq_keyed e1"
  by (auto simp: seq_checkStart_def Let_def seq_keyed_def split: option.splits if_splits)

lemma seq_checkEnd_keyed:
  "seq_checkEnd e line = Inr e1 \<Longrightarrow> seq_keyed e \<Longrightarrow> seq_keyed e1"
  by (auto simp: seq_checkEnd_def Let_def seq_keyed_def split: option.splits if_splits)

lemma seq_Process_keyed:
  "SequenceEngine_Process e line = Inr e' \<Longrightarrow> seq_keyed e \<Longrightarrow> seq_keyed e'"
  by (auto simp: SequenceEngine_Process_def split: sum.splits
      dest: seq_checkStart_keyed seq_checkEnd_keyed)

lemma seq_Reset_keyed: "seq_keyed (SequenceEngine_Reset e)"
  by (simp add: seq_keyed_def SequenceEngine_Reset_def)

lemma map_filter_mem:
  "m k = Some v \<Longrightarrow> k \<in> set ks \<Longrightarrow> v \<in> set (List.map_filter m ks)"
  by (force simp: List.map_filter_def)

lemma seq_Finalize_issue:
  assumes "openSequences e k = Some tr" and "range_order (openSequences e) ks"
  shows "seq_issue e tr \<in> set (Issues (fst (SequenceEngine_Finalize now ks e)))"
proof -
  have "k \<in> set ks"
    using assms by (auto simp: range_order_def)
  then have "tr \<in> set (List.map_filter (openSequences e) ks)"
    using assms(1) by (rule map_filter_mem[rotated])
  then show ?thesis
    by (simp add: SequenceEngine_Finalize_def Let_def seq_issue_def)
qed

text \<open>
  C4.  Take a sequence engine whose entries are stored under their ids, a record whose end
  regex match carries a correlation id (the capture group is present), and the open entry
  the end check finds under that id (the state the end check reads is the one left by the
  start check of the same record).  Then \<open>Process\<close> returns normally; the entry is deleted
  exactly when the elapsed time \<open>record.ts - open.start\<close> (the duration \<open>Time.Sub\<close>
  returns) is at most the timeout; no other entry changes; a record at exactly
  \<open>open.start + timeout\<close> deletes the entry; and when the elapsed time exceeds the timeout
  the entry stays as it was, and \<open>Finalize\<close> (whatever the order in which it ranges over
  the map) reports a MissingEnd issue carrying that id, the start time, the source, the line
  number and the configured timeout.
\<close>

theorem C4_end_within_timeout_closes:
  assumes keyed: "seq_keyed e"
    and start: "seq_checkStart e line = Inr e1"
    and em: "endPattern e (Raw line) = Some ms"
    and lo: "0 \<le> seq_corrField e" and hi: "seq_corrField e \<le> int (length ms) - 1"
    and opn: "openSequences e1 (ms ! nat (seq_corrField e)) = Some tr"
  shows "\<exists>e'. SequenceEngine_Process e line = Inr e' \<and>
     (openSequences e' (ms ! nat (seq_corrField e)) = None
        \<longleftrightarrow> Time_Sub (Timestamp line) (startTime tr) \<le> seq_timeout e) \<and>
     (\<forall>k. k \<noteq> ms ! nat (seq_corrField e) \<longrightarrow> openSequences e' k = openSequences e1 k) \<and>
     (is_Duration (seq_timeout e) \<and> Timestamp line = startTime tr + seq_timeout e
        \<longrightarrow> openSequences e' (ms ! nat (seq_corrField e)) = None) \<and>
     (seq_timeout e < Time_Sub (Timestamp line) (startTime tr) \<longrightarrow>
        openSequences e' (ms ! nat (seq_corrField e)) = Some tr \<and>
        (\<forall>now ks. range_order (openSequences e') ks \<longrightarrow>
           \<lparr>Type = IssueTypeMissingEnd,
            Description = DescSequenceNotCompleted (seq_timeout e),
            Context = emptyContext
              \<lparr>CorrelationID := ms ! nat (seq_corrField e), StartTime := startTime tr,
               IssueSource := seq_source tr, IssueLineNum := seq_lineNum tr,
               Timeout := seq_timeout e\<rparr>\<rparr>
           \<in> set (Issues (fst (SequenceEngine_Finalize now ks e')))))"
proof -
  let ?cid = "ms ! nat (seq_corrField e)"
  let ?el = "Time_Sub (Timestamp line) (startTime tr)"
  note f = seq_checkStart_fields[OF start]
  have k1: "seq_keyed e1"
    by (rule seq_checkStart_keyed[OF start keyed])
  have proc: "SequenceEngine_Process e line = seq_checkEnd e1 line"
    using start by (simp add: SequenceEngine_Process_def)
  show ?thesis
  proof (cases "?el \<le> seq_timeout e")
    case True
    have "seq_checkEnd e1 line = Inr (e1\<lparr>openSequences := (openSequences e1)(?cid := None)\<rparr>)"
      using True em lo hi opn f by (simp add: seq_checkEnd_def)
    then show ?thesis
      using True by (simp add: proc)
  next
    case False
    have ce: "seq_checkEnd e1 line = Inr e1"
      using False em lo hi opn f by (simp add: seq_checkEnd_def)
    have nb: "\<not> (is_Duration (seq_timeout e) \<and> Timestamp line = startTime tr + seq_timeout e)"
      using False Time_Sub_add[of "seq_timeout e" "startTime tr"] by auto
    have cid: "seq_correlationID tr = ?cid"
      using k1 opn by (simp add: seq_keyed_def)
    have "\<forall>now ks. range_order (openSequences e1) ks \<longrightarrow>
        seq_issue e1 tr \<in> set (Issues (fst (SequenceEngine_Finalize now ks e1)))"
      using seq_Finalize_issue[OF opn] by blast
    then show ?thesis
      using False nb opn cid f by (simp add: proc ce seq_issue_def)
  qed
qed

theorem C4_witness:
  "\<exists>e'. SequenceEngine_Process ex_seq (ex_line ''END id=abc'' 60 2) = Inr e' \<and>
     openSequences e' ''abc'' = None"
proof -
  let ?line = "ex_line ''END id=abc'' 60 2"
  let ?e1 = "ex_seq\<lparr>seq_stats := emptyStats\<lparr>StatsLinesProcessed := 1\<rparr>\<rparr>"
  have keyed: "seq_keyed ex_seq"
    by (simp add: seq_keyed_def ex_seq_def)
  have start: "seq_checkStart ex_seq ?line = Inr ?e1"
    by (simp add: seq_checkStart_def ex_seq_def ex_line_def ex_prefix_re_def emptyStats_def)
  have em: "endPattern ex_seq (Raw ?line) = Some [''END id=abc'', ''abc'']"
    by (simp add: ex_seq_def ex_line_def ex_prefix_re_def)
  have lo: "0 \<le> seq_corrField ex_seq"
    and hi: "seq_corrField ex_seq \<le> int (length [''END id=abc'', ''abc'']) - 1"
    by (simp_all add: ex_seq_def)
  have opn: "openSequences ?e1 ([''END id=abc'', ''abc''] ! nat (seq_corrField ex_seq))
      = Some \<lparr>seq_correlationID = ''abc'', startTime = 0, seq_source = ''app.log'',
               seq_lineNum = 1\<rparr>"
    by (simp add: ex_seq_def)
  have el: "Time_Sub (Timestamp ?line) 0 \<le> seq_timeout ex_seq"
    by (simp add: ex_line_def ex_seq_def Time_Sub_def maxDuration_def minDuration_def Second_def)
  have cid: "[''END id=abc'', ''abc''] ! nat (seq_corrField ex_seq) = ''abc''"
    by (simp add: ex_seq_def)
  show ?thesis
    using C4_end_within_timeout_closes[OF keyed start em lo hi opn] el
    by (auto simp: cid)
qed

section \<open>Properties of the periodic engine\<close>

lemma consecutive_pairs_drop:
  assumes "Suc i < length xs"
  shows "drop i (consecutive_pairs xs)
     = (xs ! i, xs ! Suc i) # drop (Suc i) (consecutive_pairs xs)"
proof -
  have "i < length (consecutive_pairs xs)"
    using assms by (simp add: consecutive_pairs_def)
  moreover have "consecutive_pairs xs ! i = (xs ! i, xs ! Suc i)"
    using assms by (simp add: consecutive_pairs_def nth_tl)
  ultimately show ?thesis
    by (metis Cons_nth_drop_Suc)
qed

lemma exceeds_pair:
  "exceeds e (a, b) = (maxGap e < Time_Sub (per_timestamp b) (per_timestamp a))"
  by (simp add: exceeds_def)

text \<open>The loop over the indices is the filter over the consecutive pairs.\<close>

lemma gapLoop_eq:
  "0 < i \<Longrightarrow> gapLoop e i issues =
     issues @ map (\<lambda>p. gap_issue e (fst p) (snd p))
                (filter (exceeds e) (drop (i - 1) (consecutive_pairs (matches e))))"
proof (induction e i issues rule: gapLoop.induct)
  case (1 e i issues)
  show ?case
  proof (cases "i < length (matches e)")
    case True
    obtain j where j: "i = Suc j"
      using "1.prems" by (cases i) auto
    have d: "drop j (consecutive_pairs (matches e)) =
        (matches e ! j, matches e ! i) # drop i (consecutive_pairs (matches e))"
      using consecutive_pairs_drop[of j "matches e"] True j by simp
    let ?acc = "(if maxGap e < Time_Sub (per_timestamp (matches e ! i))
                                 (per_timestamp (matches e ! (i - 1)))
         then issues @ [gap_issue e (matches e ! (i - 1)) (matches e ! i)] else issues)"
    have step: "gapLoop e i issues = gapLoop e (i + 1) ?acc"
      using True by (subst gapLoop.simps) (simp add: Let_def)
    have ih: "gapLoop e (i + 1) ?acc = ?acc @ map (\<lambda>p. gap_issue e (fst p) (snd p))
                (filter (exceeds e) (drop i (consecutive_pairs (matches e))))"
      using "1.IH"[OF True refl refl refl] by simp
    show ?thesis
      unfolding step ih using j d by (simp add: exceeds_pair)
  next
    case False
    then have "drop (i - 1) (consecutive_pairs (matches e)) = []"
      by (simp add: consecutive_pairs_def)
    moreover have "gapLoop e i issues = issues"
      using False by (subst gapLoop.simps) simp
    ultimately show ?thesis
      by simp
  qed
qed

lemma Type_gap_issue: "Type (gap_issue e p c) = IssueTypeGapExceeded"
  by (simp add: gap_issue_def Let_def)

lemma Type_below_issue: "Type (below_issue e) = IssueTypeBelowMinOccurrences"
  by (simp add: below_issue_def)

lemma gap_issue_stats: "gap_issue (e\<lparr>per_stats := s\<rparr>) = gap_issue e"
  by (intro ext) (simp add: gap_issue_def Let_def)

lemma exceeds_stats: "exceeds (e\<lparr>per_stats := s\<rparr>) = exceeds e"
  by (intro ext) (simp add: exceeds_def)

lemma below_issue_stats: "below_issue (e\<lparr>per_stats := s\<rparr>) = below_issue e"
  by (simp add: below_issue_def)

lemma per_Finalize_Issues:
  "Issues (fst (PeriodicEngine_Finalize now e)) =
     map (\<lambda>p. gap_issue e (fst p) (snd p)) (filter (exceeds e) (consecutive_pairs (matches e)))
     @ (if 0 < minOccurrences e \<and> int (length (matches e)) < minOccurrences e
        then [below_issue e] else [])"
  by (simp add: PeriodicEngine_Finalize_def Let_def gapLoop_eq gap_issue_stats exceeds_stats
      below_issue_stats)

text \<open>
  C5.  For every periodic engine, the GapExceeded issues \<open>Finalize\<close> emits are, in order,
  one for each consecutive pair of recorded matches whose delta (the duration \<open>Time.Sub\<close>
  returns) is strictly greater than the max gap, and none for a pair at or under it; the
  BelowMinOccurrences issues are exactly one when a minimum count above 0 is configured and
  the number of matches is strictly less than it, and none otherwise; there is no other
  issue; and with zero or one match there is no gap issue.
\<close>

theorem C5_periodic_finalize_issues:
  "filter (\<lambda>i. Type i = IssueTypeGapExceeded) (Issues (fst (PeriodicEngine_Finalize now e)))
     = map (\<lambda>p. gap_issue e (fst p) (snd p))
         (filter (exceeds e) (consecutive_pairs (matches e)))
   \<and> filter (\<lambda>i. Type i = IssueTypeBelowMinOccurrences)
        (Issues (fst (PeriodicEngine_Finalize now e)))
     = (if 0 < minOccurrences e \<and> int (length (matches e)) < minOccurrences e
        then [below_issue e] else [])
   \<and> length (Issues (fst (PeriodicEngine_Finalize now e)))
     = length (filter (exceeds e) (consecutive_pairs (matches e)))
       + (if 0 < minOccurrences e \<and> int (length (matches e)) < minOccurrences e then 1 else 0)
   \<and> (length (matches e) \<le> 1 \<longrightarrow>
        filter (\<lambda>i. Type i = IssueTypeGapExceeded)
          (Issues (fst (PeriodicEngine_Finalize now e))) = [])"
proof -
  let ?gaps = "map (\<lambda>p. gap_issue e (fst p) (snd p))
         (filter (exceeds e) (consecutive_pairs (matches e)))"
  have g1: "filter (\<lambda>i. Type i = IssueTypeGapExceeded) ?gaps = ?gaps"
    by (simp add: filter_map o_def Type_gap_issue)
  have g2: "filter (\<lambda>i. Type i = IssueTypeBelowMinOccurrences) ?gaps = []"
    by (simp add: filter_map o_def Type_gap_issue)
  have short: "length (matches e) \<le> 1 \<Longrightarrow> consecutive_pairs (matches e) = []"
    by (cases "matches e") (auto simp: consecutive_pairs_def)
  show ?thesis
    unfolding per_Finalize_Issues
    using short by (simp add: g1 g2 Type_below_issue)
qed

text \<open>
  Scenario S3: heartbeats at 10:00, 10:02 and 10:15 (0 s, 120 s and 900 s) give one gap
  issue, between the second and the third, and one undercount issue.
\<close>

lemma S3_periodic_gap_and_undercount:
  "map Type (Issues (fst (PeriodicEngine_Finalize now (ex_per [0, 120, 900]))))
     = [IssueTypeGapExceeded, IssueTypeBelowMinOccurrences]
   \<and> map (StartTime \<circ> Context) (Issues (fst (PeriodicEngine_Finalize now (ex_per [0, 120, 900]))))
     = [120 * Second, zeroTime]"
  by (simp add: per_Finalize_Issues ex_per_def consecutive_pairs_def exceeds_def
      gap_issue_def below_issue_def Time_Sub_def maxDuration_def minDuration_def Second_def
      emptyContext_def)

theorem C5_witness:
  "length (matches (ex_per [0])) \<le> 1 \<and>
   filter (\<lambda>i. Type i = IssueTypeGapExceeded)
     (Issues (fst (PeriodicEngine_Finalize 0 (ex_per [0])))) = [] \<and>
   length (Issues (fst (PeriodicEngine_Finalize 0 (ex_per [0])))) = 1"
proof -
  have n: "matches (ex_per [0]) = [\<lparr>per_timestamp = 0, per_source = ''app.log'', per_lineNum = 1\<rparr>]"
    and b: "minOccurrences (ex_per [0]) = 10"
    by (simp_all add: ex_per_def)
  show ?thesis
    using C5_periodic_finalize_issues[of 0 "ex_per [0]"]
    by (simp add: n b consecutive_pairs_def)
qed

section \<open>Properties of the analyzer\<close>

lemma filtered_out_inverted:
  "End r < Start r \<Longrightarrow> filtered_out (Some r) line"
  by (auto simp: filtered_out_def Time_Before_def Time_After_def)

lemma analyzeLoop_all_filtered:
  "(\<And>l. Line l \<in> set evs \<Longrightarrow> filtered_out tr l) \<Longrightarrow>
   analyzeLoop tr cancel evs st = Inr st' \<Longrightarrow>
   ls_engines st' = ls_engines st \<and> ls_lines st' = ls_lines st"
proof (induction evs arbitrary: cancel st)
  case Nil
  then show ?case
    by (simp split: if_splits)
next
  case (Cons ev evs)
  show ?case
  proof (cases ev)
    case (Line l)
    have f: "filtered_out tr l"
      using Cons.prems(1)[of l] Line by simp
    from Cons.prems(2) Line f obtain c' st1 where
      r: "analyzeLoop tr c' evs st1 = Inr st'" and
      s: "ls_engines st1 = ls_engines st" "ls_lines st1 = ls_lines st"
      by (auto simp: Let_def split: if_splits)
    have "ls_engines st' = ls_engines st1 \<and> ls_lines st' = ls_lines st1"
      by (rule Cons.IH[OF _ r]) (use Cons.prems(1) in simp)
    then show ?thesis
      using s by simp
  next
    case (Fail msg)
    then show ?thesis
      using Cons.prems(2) by (simp split: if_splits)
  qed
qed

lemma analyzeLoop_all_filtered_total:
  "(\<And>l. Line l \<in> set evs \<Longrightarrow> filtered_out tr l) \<Longrightarrow> (\<And>msg. Fail msg \<notin> set evs) \<Longrightarrow>
   \<exists>st'. analyzeLoop tr None evs st = Inr st'"
proof (induction evs arbitrary: st)
  case Nil
  then show ?case
    by simp
next
  case (Cons ev evs)
  show ?case
  proof (cases ev)
    case (Line l)
    have f: "filtered_out tr l"
      using Cons.prems(1)[of l] Line by simp
    have ih: "\<exists>st'. analyzeLoop tr None evs st1 = Inr st'" for st1
      by (rule Cons.IH) (use Cons.prems in auto)
    show ?thesis
      using Line f ih by (simp add: Let_def)
  next
    case (Fail msg)
    then show ?thesis
      using Cons.prems(2)[of msg] by simp
  qed
qed

lemma Issues_Finalize_Reset:
  "Issues (fst (RuleEngine_Finalize now ks (RuleEngine_Reset g))) = issues_without_records g"
proof (cases g)
  case (Seq e)
  then show ?thesis
    by (simp add: SequenceEngine_Finalize_def SequenceEngine_Reset_def Let_def
        List.map_filter_def)
next
  case (Per e)
  then show ?thesis
    by (simp add: per_Finalize_Issues PeriodicEngine_Reset_def consecutive_pairs_def)
next
  case (Cond e)
  then show ?thesis
    by (simp add: ConditionalEngine_Finalize_def ConditionalEngine_Reset_def Let_def)
qed

lemma finalizeAll_fst:
  "fst (finalizeAll clock order i (g # gs)) =
     fst (RuleEngine_Finalize (clock (i + 1)) (order i) g)
       # fst (finalizeAll clock order (i + 1) gs)"
  by (simp add: Let_def case_prod_beta)

lemma finalizeAll_snd:
  "snd (finalizeAll clock order i (g # gs)) =
     snd (RuleEngine_Finalize (clock (i + 1)) (order i) g)
       # snd (finalizeAll clock order (i + 1) gs)"
  by (simp add: Let_def case_prod_beta)

declare finalizeAll.simps(2) [simp del]

lemma finalizeAll_Reset:
  "map Issues (fst (finalizeAll clock order i (map RuleEngine_Reset gs)))
     = map issues_without_records gs"
proof (induction gs arbitrary: i)
  case Nil
  show ?case
    by simp
next
  case (Cons g gs)
  show ?case
    using Cons.IH[of "i + 1"] by (simp only: list.map finalizeAll_fst Issues_Finalize_Reset)
qed

lemma Analyze_Inr:
  assumes "Analyze clock order cancel a evs = Inr (res, a')"
  obtains st where
    "analyzeLoop (timeRange a) cancel evs
       \<lparr>ls_engines = map RuleEngine_Reset (engines a), ls_sources = [], ls_lines = 0\<rparr> = Inr st"
    and "res = \<lparr>Results = fst (finalizeAll clock order 0 (ls_engines st)),
        Metadata = \<lparr>ConfigFile = [], Sources = ls_sources st, MetaTimeRange = timeRange a,
          MetaStartTime = clock 0, MetaEndTime = clock (length (engines a) + 1),
          LinesProcessed = ls_lines st\<rparr>\<rparr>"
    and "a' = a\<lparr>engines := snd (finalizeAll clock order 0 (ls_engines st))\<rparr>"
  using assms by (auto simp: Analyze_def Let_def case_prod_beta split: sum.splits)

text \<open>
  C8 (as amended).  For every analyzer whose time range has \<open>start > end\<close>, every source
  and every cancellation: when \<open>Analyze\<close> returns a result, it reports zero lines processed,
  and the issues of every rule are those of an engine that saw no record: none for a
  sequence, a conditional and a periodic rule without a minimum count, and the one
  BelowMinOccurrences issue (0 occurrences) for a periodic rule whose minimum count is
  above 0.  It does return a result when the context is not cancelled and the source does
  not fail.
\<close>

theorem C8_inverted_time_range:
  assumes tr: "timeRange a = Some r" and inv: "End r < Start r"
  shows "(\<forall>res a'. Analyze clock order cancel a evs = Inr (res, a') \<longrightarrow>
            LinesProcessed (Metadata res) = 0
            \<and> map Issues (Results res) = map issues_without_records (engines a))
       \<and> ((\<forall>msg. Fail msg \<notin> set evs) \<longrightarrow>
            (\<exists>res a'. Analyze clock order None a evs = Inr (res, a')))"
proof (intro conjI allI impI)
  fix res a'
  assume run: "Analyze clock order cancel a evs = Inr (res, a')"
  let ?st0 = "\<lparr>ls_engines = map RuleEngine_Reset (engines a), ls_sources = [], ls_lines = 0\<rparr>"
  from run obtain st where
    loop: "analyzeLoop (timeRange a) cancel evs ?st0 = Inr st"
    and res: "res = \<lparr>Results = fst (finalizeAll clock order 0 (ls_engines st)),
        Metadata = \<lparr>ConfigFile = [], Sources = ls_sources st, MetaTimeRange = timeRange a,
          MetaStartTime = clock 0, MetaEndTime = clock (length (engines a) + 1),
          LinesProcessed = ls_lines st\<rparr>\<rparr>"
    by (rule Analyze_Inr)
  have "ls_engines st = ls_engines ?st0 \<and> ls_lines st = ls_lines ?st0"
    by (rule analyzeLoop_all_filtered[OF _ loop]) (simp add: tr filtered_out_inverted[OF inv])
  then have st: "ls_engines st = map RuleEngine_Reset (engines a)" "ls_lines st = 0"
    by simp_all
  show "LinesProcessed (Metadata res) = 0"
    by (simp add: res st)
  show "map Issues (Results res) = map issues_without_records (engines a)"
    by (simp add: res st finalizeAll_Reset)
next
  assume nofail: "\<forall>msg. Fail msg \<notin> set evs"
  let ?st0 = "\<lparr>ls_engines = map RuleEngine_Reset (engines a), ls_sources = [], ls_lines = 0\<rparr>"
  have "\<exists>st'. analyzeLoop (Some r) None evs ?st0 = Inr st'"
    by (rule analyzeLoop_all_filtered_total) (use nofail filtered_out_inverted[OF inv] in auto)
  then show "\<exists>res a'. Analyze clock order None a evs = Inr (res, a')"
    by (auto simp: Analyze_def Let_def tr case_prod_beta)
qed

text \<open>
  The claim as stated fails: with the time range from 10 s down to 5 s, a periodic rule
  that requires 10 occurrences has one issue although no line is processed.
\<close>

theorem C8_counterexample:
  "End \<lparr>Start = 10 * Second, End = 5 * Second\<rparr> < Start \<lparr>Start = 10 * Second, End = 5 * Second\<rparr>
   \<and> (\<exists>res a'. Analyze (\<lambda>k. 0) (\<lambda>i. []) None ex_analyzer
                   [Line (ex_line ''HEARTBEAT ok'' 7 1)] = Inr (res, a')
         \<and> LinesProcessed (Metadata res) = 0
         \<and> map (map Type \<circ> Issues) (Results res) = [[IssueTypeBelowMinOccurrences]])"
proof -
  let ?st = "\<lparr>ls_engines = map RuleEngine_Reset (engines ex_analyzer),
              ls_sources = [''app.log''], ls_lines = 0\<rparr>"
  have loop: "analyzeLoop (timeRange ex_analyzer) None [Line (ex_line ''HEARTBEAT ok'' 7 1)]
      \<lparr>ls_engines = map RuleEngine_Reset (engines ex_analyzer), ls_sources = [], ls_lines = 0\<rparr>
      = Inr ?st"
    by (simp add: ex_analyzer_def ex_line_def filtered_out_def Time_Before_def Time_After_def
        Second_def)
  have iss: "map (map Type \<circ> Issues) (fst (finalizeAll (\<lambda>k. 0) (\<lambda>i. []) 0 (ls_engines ?st)))
      = [[IssueTypeBelowMinOccurrences]]"
    by (simp add: ex_analyzer_def finalizeAll_fst per_Finalize_Issues PeriodicEngine_Reset_def
        consecutive_pairs_def ex_per_def Type_below_issue)
  have "\<exists>res a'. Analyze (\<lambda>k. 0) (\<lambda>i. []) None ex_analyzer
                   [Line (ex_line ''HEARTBEAT ok'' 7 1)] = Inr (res, a')
         \<and> LinesProcessed (Metadata res) = 0
         \<and> map (map Type \<circ> Issues) (Results res) = [[IssueTypeBelowMinOccurrences]]"
    unfolding Analyze_def Let_def loop using iss by (simp add: case_prod_beta)
  then show ?thesis
    by (simp add: Second_def)
qed

theorem C8_witness:
  "\<exists>res a'. Analyze (\<lambda>k. 0) (\<lambda>i. []) None ex_analyzer
               [Line (ex_line ''HEARTBEAT ok'' 7 1)] = Inr (res, a')
     \<and> LinesProcessed (Metadata res) = 0
     \<and> map Issues (Results res) = map issues_without_records (engines ex_analyzer)"
proof -
  have tr: "timeRange ex_analyzer = Some \<lparr>Start = 10 * Second, End = 5 * Second\<rparr>"
    by (simp add: ex_analyzer_def)
  have inv: "End \<lparr>Start = 10 * Second, End = 5 * Second\<rparr>
      < Start \<lparr>Start = 10 * Second, End = 5 * Second\<rparr>"
    by (simp add: Second_def)
  have nf: "\<forall>msg. Fail msg \<notin> set [Line (ex_line ''HEARTBEAT ok'' 7 1)]"
    by simp
  show ?thesis
    using C8_inverted_time_range[OF tr inv, of "\<lambda>k. 0" "\<lambda>i. []" None
        "[Line (ex_line ''HEARTBEAT ok'' 7 1)]"] nf
    by blast
qed

section \<open>Two runs of the analyzer\<close>

lemma per_Process_Reset:
  "PeriodicEngine_Process e line = Inr e' \<Longrightarrow>
   PeriodicEngine_Reset e' = PeriodicEngine_Reset e"
  by (auto simp: PeriodicEngine_Process_def PeriodicEngine_Reset_def Let_def split: if_splits)

lemma removeSatisfiedTriggers_Reset:
  "removeSatisfiedTriggers e c t = Inr e' \<Longrightarrow>
   ConditionalEngine_Reset e' = ConditionalEngine_Reset e"
  by (auto simp: removeSatisfiedTriggers_def ConditionalEngine_Reset_def split: sum.splits)

lemma cond_checkTrigger_Reset:
  "ConditionalEngine_Reset (cond_checkTrigger e line) = ConditionalEngine_Reset e"
  by (simp add: cond_checkTrigger_def ConditionalEngine_Reset_def Let_def split: option.splits)

lemma cond_Process_Reset:
  "ConditionalEngine_Process e line = Inr e' \<Longrightarrow>
   ConditionalEngine_Reset e' = ConditionalEngine_Reset e"
  unfolding ConditionalEngine_Process_def Let_def
  by (cases "expectedPattern (cond_checkTrigger e line) (Raw line)")
    (auto dest: removeSatisfiedTriggers_Reset simp: cond_checkTrigger_Reset)

lemma seq_checkStart_Reset:
  "seq_checkStart e line = Inr e' \<Longrightarrow> SequenceEngine_Reset e' = SequenceEngine_Reset e"
  by (auto simp: seq_checkStart_def SequenceEngine_Reset_def Let_def
      split: option.splits if_splits)

lemma seq_checkEnd_Reset:
  "seq_checkEnd e line = Inr e' \<Longrightarrow> SequenceEngine_Reset e' = SequenceEngine_Reset e"
  by (auto simp: seq_checkEnd_def SequenceEngine_Reset_def Let_def
      split: option.splits if_splits)

lemma seq_Process_Reset:
  "SequenceEngine_Process e line = Inr e' \<Longrightarrow>
   SequenceEngine_Reset e' = SequenceEngine_Reset e"
  by (auto simp: SequenceEngine_Process_def split: sum.splits)
    (metis seq_checkStart_Reset seq_checkEnd_Reset)

lemma RuleEngine_Process_Reset:
  "RuleEngine_Process g line = Inr g' \<Longrightarrow> RuleEngine_Reset g' = RuleEngine_Reset g"
  by (cases g)
    (auto simp: map_sum_def split: sum.splits
      dest: cond_Process_Reset seq_Process_Reset per_Process_Reset)

lemma processAll_Reset:
  "processAll gs line = Inr gs' \<Longrightarrow> map RuleEngine_Reset gs' = map RuleEngine_Reset gs"
  by (induction gs arbitrary: gs') (auto split: sum.splits dest: RuleEngine_Process_Reset)

lemma analyzeLoop_Reset:
  "analyzeLoop tr cancel evs st = Inr st' \<Longrightarrow>
   map RuleEngine_Reset (ls_engines st') = map RuleEngine_Reset (ls_engines st)"
proof (induction evs arbitrary: cancel st)
  case Nil
  then show ?case by (simp split: if_splits)
next
  case (Cons ev evs)
  show ?case
  proof (cases ev)
    case (Line l)
    from Cons.prems Line obtain c' st1 where
      r: "analyzeLoop tr c' evs st1 = Inr st'" and
      s: "map RuleEngine_Reset (ls_engines st1) = map RuleEngine_Reset (ls_engines st)"
      by (auto simp: Let_def split: if_splits sum.splits dest: processAll_Reset)
    show ?thesis using Cons.IH[OF r] s by simp
  next
    case (Fail msg)
    then show ?thesis using Cons.prems by (simp split: if_splits)
  qed
qed

lemma RuleEngine_Finalize_Reset:
  "RuleEngine_Reset (snd (RuleEngine_Finalize now ks g)) = RuleEngine_Reset g"
  by (cases g)
    (simp_all add: SequenceEngine_Finalize_def PeriodicEngine_Finalize_def
      ConditionalEngine_Finalize_def SequenceEngine_Reset_def PeriodicEngine_Reset_def
      ConditionalEngine_Reset_def Let_def)

lemma finalizeAll_snd_Reset:
  "map RuleEngine_Reset (snd (finalizeAll clock order i gs)) = map RuleEngine_Reset gs"
  by (induction gs arbitrary: i) (simp_all add: finalizeAll_snd RuleEngine_Finalize_Reset)

lemma Analyze_same_rules:
  assumes "Analyze clock order cancel a evs = Inr (res, a')"
  shows "same_rules a a'"
proof -
  from assms obtain st where
    loop: "analyzeLoop (timeRange a) cancel evs
       \<lparr>ls_engines = map RuleEngine_Reset (engines a), ls_sources = [], ls_lines = 0\<rparr> = Inr st"
    and a': "a' = a\<lparr>engines := snd (finalizeAll clock order 0 (ls_engines st))\<rparr>"
    by (rule Analyze_Inr)
  have idem: "map RuleEngine_Reset (map RuleEngine_Reset gs) = map RuleEngine_Reset gs" for gs
  proof -
    have "RuleEngine_Reset (RuleEngine_Reset g) = RuleEngine_Reset g" for g
      by (cases g) (simp_all add: SequenceEngine_Reset_def PeriodicEngine_Reset_def
          ConditionalEngine_Reset_def)
    then show ?thesis by simp
  qed
  show ?thesis
    using analyzeLoop_Reset[OF loop] idem[of "engines a"]
    by (simp add: same_rules_def a' finalizeAll_snd_Reset)
qed

lemma analyzeLoop_uncancelled:
  "analyzeLoop tr cancel evs st = Inr st' \<Longrightarrow> analyzeLoop tr None evs st = Inr st'"
proof (induction evs arbitrary: cancel st)
  case Nil
  then show ?case by (simp split: if_splits)
next
  case (Cons ev evs)
  show ?case
  proof (cases ev)
    case (Line l)
    let ?st1 = "(if Source l \<in> set (ls_sources st) then st
                 else st\<lparr>ls_sources := ls_sources st @ [Source l]\<rparr>)"
    let ?c = "map_option (\<lambda>n. n - 1) cancel"
    have nc: "cancel \<noteq> Some 0"
      using Cons.prems Line by (auto split: if_splits)
    show ?thesis
    proof (cases "filtered_out tr l")
      case True
      then have "analyzeLoop tr ?c evs ?st1 = Inr st'"
        using Cons.prems Line nc by (simp add: Let_def)
      from Cons.IH[OF this] show ?thesis
        using Line True by (simp add: Let_def)
    next
      case False
      then obtain gs where p: "processAll (ls_engines ?st1) l = Inr gs"
        and r: "analyzeLoop tr ?c evs (?st1\<lparr>ls_lines := ls_lines ?st1 + 1, ls_engines := gs\<rparr>) = Inr st'"
        using Cons.prems Line nc by (simp add: Let_def split: sum.splits)
      from Cons.IH[OF r] show ?thesis
        using Line False p by (simp add: Let_def)
    qed
  next
    case (Fail msg)
    then show ?thesis using Cons.prems by (simp split: if_splits)
  qed
qed

lemma mset_map_filter_range:
  assumes "range_order m k1" and "range_order m k2"
  shows "mset (List.map_filter m k1) = mset (List.map_filter m k2)"
proof -
  have "mset k1 = mset k2"
    using assms by (simp add: range_order_def set_eq_iff_mset_eq_distinct[symmetric])
  then show ?thesis
    by (simp add: List.map_filter_def)
qed

lemma seq_issue_stats: "seq_issue (e\<lparr>seq_stats := s\<rparr>) = seq_issue e"
  by (intro ext) (simp add: seq_issue_def)

lemma cond_issue_stats: "cond_issue (e\<lparr>cond_stats := s\<rparr>) = cond_issue e"
  by (intro ext) (simp add: cond_issue_def)

lemma per_Finalize_fields:
  "RuleName (fst (PeriodicEngine_Finalize now e)) = per_name e"
  "ResultRuleType (fst (PeriodicEngine_Finalize now e)) = RuleTypePeriodic"
  "RuleDescription (fst (PeriodicEngine_Finalize now e)) = per_description e"
  "StatsLinesProcessed (Stats (fst (PeriodicEngine_Finalize now e)))
     = StatsLinesProcessed (per_stats e)"
  "LinesMatched (Stats (fst (PeriodicEngine_Finalize now e))) = LinesMatched (per_stats e)"
  by (simp_all add: PeriodicEngine_Finalize_def Let_def)

lemma seq_Finalize_fields:
  "RuleName (fst (SequenceEngine_Finalize now ks e)) = seq_name e"
  "ResultRuleType (fst (SequenceEngine_Finalize now ks e)) = RuleTypeSequence"
  "RuleDescription (fst (SequenceEngine_Finalize now ks e)) = seq_description e"
  "StatsLinesProcessed (Stats (fst (SequenceEngine_Finalize now ks e)))
     = StatsLinesProcessed (seq_stats e)"
  "LinesMatched (Stats (fst (SequenceEngine_Finalize now ks e))) = LinesMatched (seq_stats e)"
  "Issues (fst (SequenceEngine_Finalize now ks e))
     = map (seq_issue e) (List.map_filter (openSequences e) ks)"
  by (simp_all add: SequenceEngine_Finalize_def Let_def seq_issue_stats)

lemma cond_Finalize_fields:
  "RuleName (fst (ConditionalEngine_Finalize now e)) = cond_name e"
  "ResultRuleType (fst (ConditionalEngine_Finalize now e)) = RuleTypeConditional"
  "RuleDescription (fst (ConditionalEngine_Finalize now e)) = cond_description e"
  "StatsLinesProcessed (Stats (fst (ConditionalEngine_Finalize now e)))
     = StatsLinesProcessed (cond_stats e)"
  "LinesMatched (Stats (fst (ConditionalEngine_Finalize now e))) = LinesMatched (cond_stats e)"
  "Issues (fst (ConditionalEngine_Finalize now e)) = map (cond_issue e) (triggers e)"
  by (simp_all add: ConditionalEngine_Finalize_def Let_def cond_issue_stats)

lemma same_resultI:
  "RuleName r = RuleName r' \<Longrightarrow> ResultRuleType r = ResultRuleType r' \<Longrightarrow>
   RuleDescription r = RuleDescription r' \<Longrightarrow> mset (Issues r) = mset (Issues r') \<Longrightarrow>
   (ResultRuleType r \<noteq> RuleTypeSequence \<Longrightarrow> Issues r = Issues r') \<Longrightarrow>
   StatsLinesProcessed (Stats r) = StatsLinesProcessed (Stats r') \<Longrightarrow>
   LinesMatched (Stats r) = LinesMatched (Stats r') \<Longrightarrow> same_result r r'"
  unfolding same_result_def by blast

lemma seq_Finalize_same_result:
  assumes "range_order (openSequences e) k1" and "range_order (openSequences e) k2"
  shows "same_result (fst (SequenceEngine_Finalize n1 k1 e)) (fst (SequenceEngine_Finalize n2 k2 e))"
proof (rule same_resultI)
  have "mset (List.map_filter (openSequences e) k1)
      = mset (List.map_filter (openSequences e) k2)"
    using assms by (rule mset_map_filter_range)
  then have "image_mset (seq_issue e) (mset (List.map_filter (openSequences e) k1))
      = image_mset (seq_issue e) (mset (List.map_filter (openSequences e) k2))"
    by (rule arg_cong)
  then show "mset (Issues (fst (SequenceEngine_Finalize n1 k1 e)))
      = mset (Issues (fst (SequenceEngine_Finalize n2 k2 e)))"
    by (simp only: seq_Finalize_fields mset_map)
qed (simp_all only: seq_Finalize_fields, simp)

lemma per_Finalize_same_result:
  "same_result (fst (PeriodicEngine_Finalize n1 e)) (fst (PeriodicEngine_Finalize n2 e))"
  by (rule same_resultI) (simp_all only: per_Finalize_fields per_Finalize_Issues)

lemma cond_Finalize_same_result:
  "same_result (fst (ConditionalEngine_Finalize n1 e)) (fst (ConditionalEngine_Finalize n2 e))"
  by (rule same_resultI) (simp_all only: cond_Finalize_fields)

lemma Finalize_same_result:
  assumes "engine_order_ok g k1" and "engine_order_ok g k2"
  shows "same_result (fst (RuleEngine_Finalize n1 k1 g)) (fst (RuleEngine_Finalize n2 k2 g))"
proof (cases g)
  case (Seq e)
  then show ?thesis
    using assms seq_Finalize_same_result[of e k1 k2 n1 n2] by simp
next
  case (Per e)
  then show ?thesis
    using per_Finalize_same_result[of n1 e n2] by simp
next
  case (Cond e)
  then show ?thesis
    using cond_Finalize_same_result[of n1 e n2] by simp
qed

lemma Finalize_order_ok:
  "engine_order_ok (snd (RuleEngine_Finalize now ks g)) ks' = engine_order_ok g ks'"
  by (cases g)
    (simp_all add: SequenceEngine_Finalize_def PeriodicEngine_Finalize_def
      ConditionalEngine_Finalize_def Let_def)

lemma finalizeAll_length: "length (snd (finalizeAll clock order i gs)) = length gs"
  by (induction gs arbitrary: i) (simp_all add: finalizeAll_snd)

lemma finalizeAll_order_ok:
  "j < length gs \<Longrightarrow>
   engine_order_ok (snd (finalizeAll clock order i gs) ! j) ks = engine_order_ok (gs ! j) ks"
proof (induction gs arbitrary: i j)
  case Nil
  then show ?case by simp
next
  case (Cons g gs)
  show ?case
  proof (cases j)
    case 0
    then show ?thesis by (simp add: finalizeAll_snd Finalize_order_ok)
  next
    case (Suc j')
    then show ?thesis using Cons.IH[of j' "i + 1"] Cons.prems by (simp add: finalizeAll_snd)
  qed
qed

lemma finalizeAll_same_result:
  assumes "\<And>j. j < length gs \<Longrightarrow> engine_order_ok (gs ! j) (o1 (i + j))"
    and "\<And>j. j < length gs \<Longrightarrow> engine_order_ok (gs ! j) (o2 (i + j))"
  shows "list_all2 same_result (fst (finalizeAll c1 o1 i gs)) (fst (finalizeAll c2 o2 i gs))"
  using assms
proof (induction gs arbitrary: i)
  case Nil
  show ?case by simp
next
  case (Cons g gs)
  have h: "engine_order_ok g (o1 i)" "engine_order_ok g (o2 i)"
    using Cons.prems(1)[of 0] Cons.prems(2)[of 0] by simp_all
  have t: "list_all2 same_result (fst (finalizeAll c1 o1 (i + 1) gs)) (fst (finalizeAll c2 o2 (i + 1) gs))"
  proof (rule Cons.IH)
    fix j assume "j < length gs"
    then show "engine_order_ok (gs ! j) (o1 (i + 1 + j))"
      using Cons.prems(1)[of "Suc j"] by simp
  next
    fix j assume "j < length gs"
    then show "engine_order_ok (gs ! j) (o2 (i + 1 + j))"
      using Cons.prems(2)[of "Suc j"] by simp
  qed
  show ?case
    using t Finalize_same_result[OF h] by (simp add: finalizeAll_fst)
qed

text \<open>
  C9 (as amended).  Run \<open>Analyze\<close> twice with the same analyzer over the same records
  (the second run starts from the engines the first run left), with any clocks, any
  cancellation and any orders in which the two runs range over the maps of their sequence
  engines.  When both runs return a result, the results agree rule by rule: the same rule
  name, type and description, the same counters, the same issues with the same payloads as
  a multiset, and for a periodic or conditional rule the same issues in the same order;
  the sources, the time range and the number of lines processed agree as well.  Finish
  times differ with the clocks, and the order of the MissingEnd issues of a sequence rule
  follows the order of the range over the map.
\<close>

theorem C9_runs_agree_up_to_order:
  assumes run1: "Analyze clock1 order1 cancel1 a evs = Inr (res1, a1)"
    and run2: "Analyze clock2 order2 cancel2 a1 evs = Inr (res2, a2)"
    and ok1: "orders_ok order1 (engines a1)"
    and ok2: "orders_ok order2 (engines a2)"
  shows "list_all2 same_result (Results res1) (Results res2)
     \<and> Sources (Metadata res1) = Sources (Metadata res2)
     \<and> MetaTimeRange (Metadata res1) = MetaTimeRange (Metadata res2)
     \<and> LinesProcessed (Metadata res1) = LinesProcessed (Metadata res2)"
proof -
  let ?st0 = "\<lambda>a. \<lparr>ls_engines = map RuleEngine_Reset (engines a), ls_sources = [], ls_lines = 0\<rparr>"
  from run1 obtain st1 where
    l1: "analyzeLoop (timeRange a) cancel1 evs (?st0 a) = Inr st1"
    and r1: "res1 = \<lparr>Results = fst (finalizeAll clock1 order1 0 (ls_engines st1)),
        Metadata = \<lparr>ConfigFile = [], Sources = ls_sources st1, MetaTimeRange = timeRange a,
          MetaStartTime = clock1 0, MetaEndTime = clock1 (length (engines a) + 1),
          LinesProcessed = ls_lines st1\<rparr>\<rparr>"
    and a1: "a1 = a\<lparr>engines := snd (finalizeAll clock1 order1 0 (ls_engines st1))\<rparr>"
    by (rule Analyze_Inr)
  from run2 obtain st2 where
    l2: "analyzeLoop (timeRange a1) cancel2 evs (?st0 a1) = Inr st2"
    and r2: "res2 = \<lparr>Results = fst (finalizeAll clock2 order2 0 (ls_engines st2)),
        Metadata = \<lparr>ConfigFile = [], Sources = ls_sources st2, MetaTimeRange = timeRange a1,
          MetaStartTime = clock2 0, MetaEndTime = clock2 (length (engines a1) + 1),
          LinesProcessed = ls_lines st2\<rparr>\<rparr>"
    and a2: "a2 = a1\<lparr>engines := snd (finalizeAll clock2 order2 0 (ls_engines st2))\<rparr>"
    by (rule Analyze_Inr)
  have sr: "same_rules a a1" by (rule Analyze_same_rules[OF run1])
  then have init: "?st0 a1 = ?st0 a" and tr: "timeRange a1 = timeRange a"
    by (simp_all add: same_rules_def)
  have "Inr st1 = (Inr st2 :: error + loopState)"
    using analyzeLoop_uncancelled[OF l1] analyzeLoop_uncancelled[OF l2] by (simp add: init tr)
  then have st: "st2 = st1" by simp
  have o1: "engine_order_ok (ls_engines st1 ! j) (order1 (0 + j))" if "j < length (ls_engines st1)" for j
    using ok1 that finalizeAll_order_ok[of j "ls_engines st1" clock1 order1 0 "order1 j"]
    by (simp add: orders_ok_def a1 finalizeAll_length)
  have o2: "engine_order_ok (ls_engines st1 ! j) (order2 (0 + j))" if "j < length (ls_engines st1)" for j
    using ok2 that finalizeAll_order_ok[of j "ls_engines st1" clock2 order2 0 "order2 j"]
    by (simp add: orders_ok_def a2 st finalizeAll_length)
  have "list_all2 same_result (fst (finalizeAll clock1 order1 0 (ls_engines st1)))
      (fst (finalizeAll clock2 order2 0 (ls_engines st1)))"
    by (rule finalizeAll_same_result) (use o1 o2 in auto)
  then show ?thesis by (simp add: r1 r2 st tr)
qed


text \<open>
  A sequence rule over the starts of \<open>a\<close> and \<open>b\<close>, neither of which ends: a run whose
  \<open>Finalize\<close> ranges over the map in the order \<open>a, b\<close> and a second run that ranges in the
  order \<open>b, a\<close> report the two MissingEnd issues in different orders.
\<close>

lemma ex_loop:
  "analyzeLoop None None ex_starts
     \<lparr>ls_engines = [Seq (SequenceEngine_Reset ex_seq)], ls_sources = [], ls_lines = 0\<rparr>
   = Inr \<lparr>ls_engines = [Seq ex_started], ls_sources = [''app.log''], ls_lines = 2\<rparr>"
  by (simp add: ex_starts_def ex_started_def filtered_out_def SequenceEngine_Process_def
      seq_checkStart_def seq_checkEnd_def SequenceEngine_Reset_def ex_seq_def ex_line_def
      ex_prefix_re_def emptyStats_def Let_def)

lemma ex_started_Reset: "SequenceEngine_Reset ex_started = SequenceEngine_Reset ex_seq"
  by (simp add: ex_started_def SequenceEngine_Reset_def)

lemma ex_run:
  assumes "map RuleEngine_Reset (engines a) = [Seq (SequenceEngine_Reset ex_seq)]"
    and "timeRange a = None"
  shows "Analyze clock order None a ex_starts =
     Inr (\<lparr>Results = [fst (SequenceEngine_Finalize (clock 1) (order 0) ex_started)],
            Metadata = \<lparr>ConfigFile = [], Sources = [''app.log''], MetaTimeRange = None,
                        MetaStartTime = clock 0, MetaEndTime = clock (length (engines a) + 1),
                        LinesProcessed = 2\<rparr>\<rparr>,
          a\<lparr>engines := [Seq (snd (SequenceEngine_Finalize (clock 1) (order 0) ex_started))]\<rparr>)"
  unfolding Analyze_def Let_def assms ex_loop
  by (simp add: finalizeAll_fst finalizeAll_snd case_prod_beta)

lemma ex_issues:
  "Issues (fst (SequenceEngine_Finalize now ks ex_started))
     = map (seq_issue ex_started) (List.map_filter (openSequences ex_started) ks)"
  by (simp add: seq_Finalize_fields)

lemma ex_issues_differ:
  "Issues (fst (SequenceEngine_Finalize n1 [''a'', ''b''] ex_started))
     \<noteq> Issues (fst (SequenceEngine_Finalize n2 [''b'', ''a''] ex_started))"
  by (simp add: seq_Finalize_fields List.map_filter_def ex_started_def seq_issue_def
      emptyContext_def)

lemma ex_orders:
  "range_order (openSequences (snd (SequenceEngine_Finalize now ks' ex_started))) [''a'', ''b'']"
  "range_order (openSequences (snd (SequenceEngine_Finalize now ks' ex_started))) [''b'', ''a'']"
  by (auto simp: range_order_def SequenceEngine_Finalize_def Let_def ex_started_def)

lemma ex_two_runs:
  "\<exists>res1 a1 res2 a2.
     Analyze (\<lambda>k. 0) (\<lambda>i. [''a'', ''b'']) None ex_seq_analyzer ex_starts = Inr (res1, a1)
     \<and> Analyze (\<lambda>k. 0) (\<lambda>i. [''b'', ''a'']) None a1 ex_starts = Inr (res2, a2)
     \<and> orders_ok (\<lambda>i. [''a'', ''b'']) (engines a1)
     \<and> orders_ok (\<lambda>i. [''b'', ''a'']) (engines a2)
     \<and> map Issues (Results res1) \<noteq> map Issues (Results res2)"
proof -
  let ?o1 = "\<lambda>i::nat. [''a'', ''b'']" and ?o2 = "\<lambda>i::nat. [''b'', ''a'']"
  let ?c = "\<lambda>k::nat. 0::int"
  let ?a1 = "ex_seq_analyzer\<lparr>engines := [Seq (snd (SequenceEngine_Finalize (?c 1) (?o1 0) ex_started))]\<rparr>"
  let ?a2 = "?a1\<lparr>engines := [Seq (snd (SequenceEngine_Finalize (?c 1) (?o2 0) ex_started))]\<rparr>"
  let ?r1 = "\<lparr>Results = [fst (SequenceEngine_Finalize (?c 1) (?o1 0) ex_started)],
            Metadata = \<lparr>ConfigFile = [], Sources = [''app.log''], MetaTimeRange = None,
                        MetaStartTime = ?c 0, MetaEndTime = ?c (length (engines ex_seq_analyzer) + 1),
                        LinesProcessed = 2\<rparr>\<rparr>"
  let ?r2 = "\<lparr>Results = [fst (SequenceEngine_Finalize (?c 1) (?o2 0) ex_started)],
            Metadata = \<lparr>ConfigFile = [], Sources = [''app.log''], MetaTimeRange = None,
                        MetaStartTime = ?c 0, MetaEndTime = ?c (length (engines ?a1) + 1),
                        LinesProcessed = 2\<rparr>\<rparr>"
  have r1: "map RuleEngine_Reset (engines ex_seq_analyzer) = [Seq (SequenceEngine_Reset ex_seq)]"
      "timeRange ex_seq_analyzer = None"
    by (simp_all add: ex_seq_analyzer_def)
  have r2: "map RuleEngine_Reset (engines ?a1) = [Seq (SequenceEngine_Reset ex_seq)]"
      "timeRange ?a1 = None"
    using RuleEngine_Finalize_Reset[of 0 "?o1 0" "Seq ex_started"]
    by (simp_all add: ex_seq_analyzer_def ex_started_Reset)
  have run1: "Analyze ?c ?o1 None ex_seq_analyzer ex_starts = Inr (?r1, ?a1)"
    by (rule ex_run[OF r1])
  have run2: "Analyze ?c ?o2 None ?a1 ex_starts = Inr (?r2, ?a2)"
    by (rule ex_run[OF r2])
  have ok1: "orders_ok ?o1 (engines ?a1)" and ok2: "orders_ok ?o2 (engines ?a2)"
    using ex_orders by (simp_all add: orders_ok_def)
  have ne: "map Issues (Results ?r1) \<noteq> map Issues (Results ?r2)"
    using ex_issues_differ[of 0 0] by simp
  from run1 run2 ok1 ok2 ne show ?thesis
    by blast
qed

theorem C9_counterexample:
  "\<exists>res1 a1 res2 a2.
     Analyze (\<lambda>k. 0) (\<lambda>i. [''a'', ''b'']) None ex_seq_analyzer ex_starts = Inr (res1, a1)
     \<and> Analyze (\<lambda>k. 0) (\<lambda>i. [''b'', ''a'']) None a1 ex_starts = Inr (res2, a2)
     \<and> orders_ok (\<lambda>i. [''a'', ''b'']) (engines a1)
     \<and> orders_ok (\<lambda>i. [''b'', ''a'']) (engines a2)
     \<and> map Issues (Results res1) \<noteq> map Issues (Results res2)"
  by (rule ex_two_runs)

theorem C9_witness:
  "\<exists>res1 a1 res2 a2.
     Analyze (\<lambda>k. 0) (\<lambda>i. [''a'', ''b'']) None ex_seq_analyzer ex_starts = Inr (res1, a1)
     \<and> Analyze (\<lambda>k. 0) (\<lambda>i. [''b'', ''a'']) None a1 ex_starts = Inr (res2, a2)
     \<and> list_all2 same_result (Results res1) (Results res2)"
proof -
  from ex_two_runs obtain res1 a1 res2 a2 where
    run1: "Analyze (\<lambda>k. 0) (\<lambda>i. [''a'', ''b'']) None ex_seq_analyzer ex_starts = Inr (res1, a1)"
    and run2: "Analyze (\<lambda>k. 0) (\<lambda>i. [''b'', ''a'']) None a1 ex_starts = Inr (res2, a2)"
    and ok1: "orders_ok (\<lambda>i. [''a'', ''b'']) (engines a1)"
    and ok2: "orders_ok (\<lambda>i. [''b'', ''a'']) (engines a2)"
    by blast
  from C9_runs_agree_up_to_order[OF run1 run2 ok1 ok2] run1 run2 show ?thesis
    by blast
qed

section \<open>Properties of the extractor and the detector\<close>

lemma parseTimestamp_UNIX_SECONDS:
  "parseTimestamp lib s ''UNIX_SECONDS'' =
     (case ParseInt s of
        None \<Rightarrow> None
      | Some n \<Rightarrow> if 0 \<le> n \<and> n \<le> 4102444800 then Some (time_Unix n) else None)"
  by (auto simp: parseTimestamp_def split: option.splits)

lemma ParseInt_examples:
  "ParseInt ''1705315800'' = Some 1705315800"
  "ParseInt ''4102444800'' = Some 4102444800"
  "ParseInt ''4102444801'' = Some 4102444801"
  "ParseInt ''-1'' = Some (- 1)"
  "ParseInt ''12a'' = None"
  "ParseInt [] = None"
  by (simp_all add: ParseInt_def is_digit_def digits_value_def)

lemma unix_boundary:
  "parseTimestamp lib ''4102444800'' ''UNIX_SECONDS'' = Some (time_Unix 4102444800)"
  "parseTimestamp lib ''4102444801'' ''UNIX_SECONDS'' = None"
  by (simp_all add: parseTimestamp_UNIX_SECONDS ParseInt_examples)

lemma Extract_UNIX_SECONDS:
  "ext_layout e = ''UNIX_SECONDS'' \<Longrightarrow>
   Extract lib e line =
     (case ext_pattern e line of
        None \<Rightarrow> None
      | Some ms \<Rightarrow> if length ms < 2 then None else time_Parse lib ''UNIX_SECONDS'' (ms ! 1))"
  by (simp add: Extract_def split: option.splits)

text \<open>
  C7.  The claim holds for the detector's \<open>parseTimestamp\<close> (see
  \<open>parseTimestamp_UNIX_SECONDS\<close> and \<open>unix_boundary\<close>) but not for the timestamp extractor
  of the file source: \<open>Extract\<close> has no case for the tag and hands it to \<open>time.Parse\<close> as
  a layout.  With the layout \<open>UNIX_SECONDS\<close> and a line that starts with the Unix seconds
  1705315800, which is in [0, 4102444800], \<open>Extract\<close> returns no match, while
  \<open>parseTimestamp\<close> accepts the same substring.
\<close>

theorem C7_extract_ignores_unix_seconds:
  "Extract ex_lib ex_extractor ''1705315800 heartbeat'' = None
   \<and> ParseInt ''1705315800'' = Some 1705315800
   \<and> parseTimestamp ex_lib ''1705315800'' ''UNIX_SECONDS'' = Some (time_Unix 1705315800)"
  by (simp add: Extract_def ex_extractor_def ex_unix_re_def is_digit_def ex_lib_def
      ex_time_Parse_def parseTimestamp_UNIX_SECONDS ParseInt_examples)

lemma ex_trim:
  "ascii_TrimSpace ''# This is a comment'' = ''# This is a comment''"
  "ascii_TrimSpace ''# Another comment'' = ''# Another comment''"
  "ascii_TrimSpace ''2024-01-15T10:30:00 Real log line'' = ''2024-01-15T10:30:00 Real log line''"
  "ascii_TrimSpace ''2024-01-15T10:30:05 Another real line'' = ''2024-01-15T10:30:05 Another real line''"
  by (simp_all add: ascii_TrimSpace_def is_space_def)

lemma ex_skipped:
  "skipped ex_lib ''# This is a comment''"
  "skipped ex_lib ''# Another comment''"
  "\<not> skipped ex_lib ''2024-01-15T10:30:00 Real log line''"
  "\<not> skipped ex_lib ''2024-01-15T10:30:05 Another real line''"
  by (simp_all add: skipped_def ex_lib_def ex_trim HasPrefix_def)

lemma ex_parses:
  "\<not> parses ex_lib ex_iso_format ''# This is a comment''"
  "\<not> parses ex_lib ex_iso_format ''# Another comment''"
  "parses ex_lib ex_iso_format ''2024-01-15T10:30:00 Real log line''"
  "parses ex_lib ex_iso_format ''2024-01-15T10:30:05 Another real line''"
  by (simp_all add: parses_def ex_lib_def ex_trim ex_iso_format_def ex_iso_re_def is_digit_def
      parseTimestamp_def ex_time_Parse_def)

lemma ex_stats:
  "lineLoop ex_lib ex_detector ex_sample Map.empty =
     [''ISO 8601'' \<mapsto> \<lparr>fs_format = ex_iso_format, matchCount = 2,
        sampleLine = ''2024-01-15T10:30:00 Real log line'',
        parsedTime = time_Unix 1705314600\<rparr>]"
  by (simp add: ex_sample_def ex_skipped ex_detector_def)
     (simp add: ex_lib_def ex_trim ex_iso_format_def ex_iso_re_def is_digit_def
      parseTimestamp_def ex_time_Parse_def Let_def)

text \<open>
  C6.  For the sample of the detector's own test (two comment lines and two ISO 8601
  lines, given to \<open>DetectFromLines\<close>), the lines that are neither blank nor comments are
  two and both match and parse under the format, so the claim puts the confidence at
  2 / 2; \<open>DetectFromLines\<close> divides the match count by the length of the whole list and
  reports 2 / 4.
\<close>

theorem C6_confidence_counts_comment_lines:
  "map Confidence (Matches (DetectFromLines ex_lib ex_detector [''ISO 8601''] ex_sample)) = [1 / 2]
   \<and> map MatchCount (Matches (DetectFromLines ex_lib ex_detector [''ISO 8601''] ex_sample)) = [2]
   \<and> length (counted_lines ex_lib ex_sample) = 2
   \<and> length (filter (parses ex_lib ex_iso_format) (counted_lines ex_lib ex_sample)) = 2"
proof -
  have "ex_sample \<noteq> []" and "length ex_sample = 4"
    by (simp_all add: ex_sample_def)
  then have "Matches (DetectFromLines ex_lib ex_detector [''ISO 8601''] ex_sample)
      = [\<lparr>Format = ex_iso_format, Confidence = 2 / 4, MatchCount = 2,
           SampleLine = ''2024-01-15T10:30:00 Real log line'',
           ParsedTime = time_Unix 1705314600\<rparr>]"
    by (simp add: DetectFromLines_def Let_def ex_stats List.map_filter_def)
       (simp add: ex_lib_def insertionSort_def)
  moreover have "counted_lines ex_lib ex_sample =
      [''2024-01-15T10:30:00 Real log line'', ''2024-01-15T10:30:05 Another real line'']"
    by (simp add: counted_lines_def ex_sample_def ex_skipped)
  ultimately show ?thesis
    by (simp add: ex_parses)
qed


text \<open>
  In general the confidence of a reported match is its match count divided by the number
  of all lines given, whatever \<open>sort.Slice\<close> does with the order of the matches; and a
  sample read from a file holds no blank line and no comment, so there the number of all
  lines is the number of lines that are neither.
\<close>

lemma sampleLoop_counted:
  "sampleLoop lib d events acc = Inr lines \<Longrightarrow> \<forall>l\<in>set acc. \<not> skipped lib l \<Longrightarrow>
   \<forall>l\<in>set lines. \<not> skipped lib l"
proof (induction events arbitrary: acc)
  case Nil
  then show ?case by simp
next
  case (Cons ev rest)
  show ?case
  proof (cases ev)
    case (ScanFail msg)
    then show ?thesis using Cons.prems(1) by simp
  next
    case (Scanned line)
    show ?thesis
    proof (cases "int (length acc) < sampleSize d")
      case False
      then show ?thesis using Cons.prems Scanned by simp
    next
      case True
      show ?thesis
      proof (cases "skipped lib line")
        case sk: True
        then have "sampleLoop lib d rest acc = Inr lines"
          using Cons.prems(1) Scanned True by (auto simp: skipped_def)
        then show ?thesis by (rule Cons.IH[OF _ Cons.prems(2)])
      next
        case sk: False
        then have run: "sampleLoop lib d rest (acc @ [line]) = Inr lines"
          using Cons.prems(1) Scanned True by (auto simp: skipped_def)
        have "\<forall>l\<in>set (acc @ [line]). \<not> skipped lib l"
          using Cons.prems(2) sk by simp
        with run show ?thesis by (rule Cons.IH)
      qed
    qed
  qed
qed

lemma sampleFile_counted:
  assumes "sampleFile lib d file = Inr lines"
  shows "counted_lines lib lines = lines"
proof -
  obtain events where "sampleLoop lib d events [] = Inr lines"
    using assms by (auto simp: sampleFile_def split: sum.splits)
  from sampleLoop_counted[OF this] show ?thesis
    by (simp add: counted_lines_def)
qed

lemma DetectFromLines_Confidence:
  assumes perm: "\<And>xs. set (sort_Slice lib match_less xs) = set xs"
    and m: "m \<in> set (Matches (DetectFromLines lib d ks lines))"
  shows "Confidence m = of_int (MatchCount m) / of_int (int (length lines))"
proof (cases "lines = []")
  case True
  then show ?thesis
    using m by (simp add: DetectFromLines_def)
next
  case False
  let ?mk = "\<lambda>s. \<lparr>Format = fs_format s,
                  Confidence = of_int (matchCount s) / of_int (int (length lines)),
                  MatchCount = matchCount s, SampleLine = sampleLine s,
                  ParsedTime = parsedTime s\<rparr>"
  let ?ms = "map ?mk (List.map_filter (lineLoop lib d lines Map.empty) ks)"
  have "Matches (DetectFromLines lib d ks lines) = sort_Slice lib match_less ?ms"
    using False by (simp add: DetectFromLines_def Let_def)
  then have mem: "m \<in> set ?ms"
    using m perm by simp
  have all: "\<forall>x\<in>set ?ms. Confidence x = of_int (MatchCount x) / of_int (int (length lines))"
    by simp
  from bspec[OF all mem] show ?thesis .
qed

lemma DetectFromFile_Confidence:
  assumes perm: "\<And>xs. set (sort_Slice lib match_less xs) = set xs"
    and run: "DetectFromFile lib d ks file = Inr res"
    and m: "m \<in> set (Matches res)"
  shows "\<exists>lines. sampleFile lib d file = Inr lines
           \<and> Confidence m = of_int (MatchCount m) / of_int (int (length (counted_lines lib lines)))"
proof -
  obtain lines where s: "sampleFile lib d file = Inr lines"
    and r: "res = DetectFromLines lib d ks lines"
    using run by (auto simp: DetectFromFile_def split: sum.splits)
  have "Confidence m = of_int (MatchCount m) / of_int (int (length lines))"
    using DetectFromLines_Confidence[OF perm, of m d ks lines] m r by simp
  then show ?thesis
    using s sampleFile_counted[OF s] by simp
qed
section \<open>The merged source: proofs\<close>

subsection \<open>The binary heap\<close>

lemma length_Swap [simp]: "length (Swap h i j) = length h"
  by (simp add: Swap_def)

lemma length_up [simp]: "length (up h j) = length h"
  by (induction h j rule: up.induct) (subst up.simps, simp add: Let_def)

lemma length_down [simp]: "length (down h i n) = length h"
  by (induction h i n rule: down.induct) (subst down.simps, simp add: Let_def)

lemma mset_Swap [simp]: "i < length h \<Longrightarrow> j < length h \<Longrightarrow> mset (Swap h i j) = mset h"
  by (simp add: Swap_def mset_swap)

lemma Swap_nth:
  "i < length h \<Longrightarrow> j < length h \<Longrightarrow>
   Swap h i j ! c = (if c = j then h ! i else if c = i then h ! j else h ! c)"
  by (simp add: Swap_def nth_list_update)

lemma Less_key: "Less h i j = (key (h ! i) < key (h ! j))"
  by (simp add: Less_def key_def Time_Before_def)

lemma parent_less: "0 < c \<Longrightarrow> parent c < c"
  unfolding parent_def by arith

lemma parent_0 [simp]: "parent 0 = 0"
  by (simp add: parent_def)

lemma up_unfold:
  "up h j = (if parent j = j \<or> \<not> Less h j (parent j) then h else up (Swap h (parent j) j) (parent j))"
  by (subst up.simps) (simp add: Let_def parent_def)

lemma up_heap:
  "k < length h \<Longrightarrow> heap_except_up (length h) h k \<Longrightarrow> is_heap (length h) (up h k)"
proof (induction h k rule: up.induct)
  case (1 h j)
  define i where "i = parent j"
  let ?n = "length h"
  note ex = "1.prems"(2)[unfolded heap_except_up_def]
  show ?case
  proof (cases "i = j \<or> \<not> Less h j i")
    case True
    then have eq: "up h j = h"
      by (subst up_unfold) (simp add: i_def)
    have "key (h ! parent c) \<le> key (h ! c)" if c: "0 < c" "c < ?n" for c
    proof (cases "c = j")
      case False
      then show ?thesis using ex c by blast
    next
      case cj: True
      then have "i \<noteq> j" using c parent_less[of j] by (simp add: i_def)
      then have "\<not> Less h j i" using True by blast
      then show ?thesis using cj by (simp add: Less_key i_def)
    qed
    then show ?thesis unfolding eq is_heap_def by blast
  next
    case False
    then have ij: "i \<noteq> j" and lt: "key (h ! j) < key (h ! i)"
      by (simp_all add: Less_key)
    have j0: "0 < j" using ij by (cases j) (auto simp: i_def)
    have i_lt: "i < j" using parent_less[OF j0] by (simp add: i_def)
    have il: "i < ?n" using i_lt "1.prems"(1) by simp
    note sw = Swap_nth[OF il "1.prems"(1)]
    have eq: "up h j = up (Swap h i j) i"
      using False by (subst up_unfold) (simp add: i_def)
    have p1: "key (Swap h i j ! parent c) \<le> key (Swap h i j ! c)"
      if c: "0 < c" "c < ?n" "c \<noteq> i" for c
    proof (cases "c = j")
      case True
      then show ?thesis using lt ij by (simp add: sw i_def[symmetric])
    next
      case cj: False
      have edge: "key (h ! parent c) \<le> key (h ! c)"
        using ex c cj by blast
      consider "parent c = j" | "parent c = i" "parent c \<noteq> j"
        | "parent c \<noteq> j" "parent c \<noteq> i"
        by blast
      then show ?thesis
      proof cases
        case 1
        then have "key (h ! parent j) \<le> key (h ! c)"
          using ex c j0 by blast
        then have "key (h ! i) \<le> key (h ! c)"
          by (simp add: i_def)
        then show ?thesis using 1 cj c(3) by (simp add: sw)
      next
        case 2
        then show ?thesis using edge lt cj c(3) by (simp add: sw)
      next
        case 3
        then show ?thesis using edge cj c(3) by (simp add: sw)
      qed
    qed
    have p2: "key (Swap h i j ! parent i) \<le> key (Swap h i j ! c)"
      if c: "0 < c" "c < ?n" "parent c = i" "0 < i" for c
    proof -
      have pi: "parent i < i" using parent_less[OF c(4)] .
      then have pne: "parent i \<noteq> i" "parent i \<noteq> j"
        using i_lt by simp_all
      have top: "Swap h i j ! parent i = h ! parent i"
        using pne by (simp add: sw)
      have ei: "key (h ! parent i) \<le> key (h ! i)"
        using ex c(4) il ij by blast
      have ci: "c \<noteq> i" using parent_less[OF c(1)] c(3) by simp
      show ?thesis
      proof (cases "c = j")
        case True
        then show ?thesis using ei ij pne by (simp add: sw)
      next
        case False
        then have "key (h ! i) \<le> key (h ! c)" using ex c by metis
        then show ?thesis using ei False ci pne by (simp add: sw)
      qed
    qed
    have "heap_except_up (length (Swap h i j)) (Swap h i j) i"
      unfolding heap_except_up_def using p1 p2 by simp
    moreover have "i < length (Swap h i j)" using il by simp
    moreover have c0: "\<not> ((j - 1) div 2 = j \<or> \<not> Less h j ((j - 1) div 2))"
      using False by (simp add: i_def parent_def)
    ultimately have "is_heap (length (Swap h i j)) (up (Swap h i j) i)"
      using "1.IH"[OF refl c0] by (simp add: i_def parent_def)
    then show ?thesis unfolding eq by simp
  qed
qed


lemma parent_child: "0 < c \<Longrightarrow> (parent c = k) = (c = 2 * k + 1 \<or> c = 2 * k + 2)"
  unfolding parent_def by arith

lemma down_unfold:
  "down h i n =
     (if n \<le> 2 * i + 1 then h
      else if \<not> Less h (if 2 * i + 2 < n \<and> Less h (2 * i + 2) (2 * i + 1) then 2 * i + 2
                          else 2 * i + 1) i
      then h
      else down (Swap h i (if 2 * i + 2 < n \<and> Less h (2 * i + 2) (2 * i + 1) then 2 * i + 2
                           else 2 * i + 1))
             (if 2 * i + 2 < n \<and> Less h (2 * i + 2) (2 * i + 1) then 2 * i + 2 else 2 * i + 1) n)"
  by (subst down.simps) (simp add: Let_def)

lemma down_heap:
  "n \<le> length h \<Longrightarrow> heap_except_down n h k \<Longrightarrow> is_heap n (down h k n)"
proof (induction h k n rule: down.induct)
  case (1 h k n)
  note ex = "1.prems"(2)[unfolded heap_except_down_def]
  define j where "j = (if 2 * k + 2 < n \<and> Less h (2 * k + 2) (2 * k + 1) then 2 * k + 2
                       else 2 * k + 1)"
  show ?case
  proof (cases "n \<le> 2 * k + 1")
    case True
    then have eq: "down h k n = h"
      by (subst down_unfold) simp
    have "key (h ! parent c) \<le> key (h ! c)" if c: "0 < c" "c < n" for c
    proof -
      have "parent c \<noteq> k"
        using parent_child[OF c(1), of k] c(2) True by auto
      then show ?thesis using ex c by blast
    qed
    then show ?thesis unfolding eq is_heap_def by blast
  next
    case False
    then have ln: "2 * k + 1 < n" by simp
    have jn: "j < n" and kj: "k < j" and pj: "parent j = k" and j0: "0 < j"
      using ln by (auto simp: j_def parent_def)
    have jmin: "key (h ! j) \<le> key (h ! c)" if "0 < c" "c < n" "parent c = k" for c
    proof -
      have "c = 2 * k + 1 \<or> c = 2 * k + 2"
        using parent_child[OF that(1), of k] that(3) by simp
      then show ?thesis
        using that(2) by (auto simp: j_def Less_key)
    qed
    show ?thesis
    proof (cases "Less h j k")
      case nl: False
      then have eq: "down h k n = h"
        using False by (subst down_unfold) (simp add: j_def)
      have "key (h ! parent c) \<le> key (h ! c)" if c: "0 < c" "c < n" for c
      proof (cases "parent c = k")
        case False
        then show ?thesis using ex c by blast
      next
        case True
        have "key (h ! k) \<le> key (h ! j)" using nl by (simp add: Less_key)
        then show ?thesis using jmin[OF c True] True by simp
      qed
      then show ?thesis unfolding eq is_heap_def by blast
    next
      case lt: True
      then have ltk: "key (h ! j) < key (h ! k)" by (simp add: Less_key)
      have eq: "down h k n = down (Swap h k j) j n"
        using False lt by (subst down_unfold) (simp add: j_def)
      have kl: "k < length h" and jl: "j < length h"
        using kj jn "1.prems"(1) by simp_all
      note sw = Swap_nth[OF kl jl]
      have p1: "key (Swap h k j ! parent c) \<le> key (Swap h k j ! c)"
        if c: "0 < c" "c < n" "parent c \<noteq> j" for c
      proof -
        have pc: "parent c < c" using parent_less[OF c(1)] .
        consider "c = j" | "c \<noteq> j" "parent c = k" | "c = k" "parent c \<noteq> k"
          | "c \<noteq> j" "c \<noteq> k" "parent c \<noteq> k"
          by blast
        then show ?thesis
        proof cases
          case 1
          then show ?thesis using ltk pj kj by (simp add: sw)
        next
          case 2
          then have "c \<noteq> k" using pc by simp
          then show ?thesis using jmin[OF c(1,2) 2(2)] 2 kj by (simp add: sw)
        next
          case 3
          then have k0: "0 < k" using c(1) by simp
          have "parent k \<noteq> k" "parent k \<noteq> j"
            using parent_less[OF k0] kj by simp_all
          moreover have "key (h ! parent k) \<le> key (h ! j)"
            using ex j0 jn pj k0 by blast
          ultimately show ?thesis using 3 kj by (simp add: sw)
        next
          case 4
          then have "key (h ! parent c) \<le> key (h ! c)" using ex c by blast
          then show ?thesis using 4 c(3) by (simp add: sw)
        qed
      qed
      have p2: "key (Swap h k j ! parent j) \<le> key (Swap h k j ! c)"
        if c: "0 < c" "c < n" "parent c = j" "0 < j" for c
      proof -
        have "j < c" using parent_less[OF c(1)] c(3) by simp
        then have cne: "c \<noteq> j" "c \<noteq> k" using kj by simp_all
        have "parent c \<noteq> k" using c(3) kj by simp
        then have "key (h ! parent c) \<le> key (h ! c)" using ex c by blast
        then show ?thesis using cne c(3) pj kj by (simp add: sw)
      qed
      have exd: "heap_except_down n (Swap h k j) j"
        unfolding heap_except_down_def using p1 p2 by simp
      have len: "n \<le> length (Swap h k j)" using "1.prems"(1) by simp
      have jalt: "j = (if 2 * k + 1 + 1 < n \<and> Less h (2 * k + 1 + 1) (2 * k + 1)
                       then 2 * k + 1 + 1 else 2 * k + 1)"
        by (simp add: j_def)
      have nn: "\<not> \<not> Less h j k" using lt by simp
      have "is_heap n (down (Swap h k j) j n)"
        by (rule "1.IH"[OF refl False jalt nn len exd])
      then show ?thesis unfolding eq .
    qed
  qed
qed

lemma mset_up: "k < length h \<Longrightarrow> mset (up h k) = mset h"
proof (induction h k rule: up.induct)
  case (1 h j)
  show ?case
  proof (cases "parent j = j \<or> \<not> Less h j (parent j)")
    case True
    then show ?thesis by (subst up_unfold) simp
  next
    case False
    then have j0: "0 < j" by (cases j) auto
    have pl: "parent j < length h"
      using parent_less[OF j0] "1.prems" by simp
    have c0: "\<not> ((j - 1) div 2 = j \<or> \<not> Less h j ((j - 1) div 2))"
      using False by (simp add: parent_def)
    have "mset (up (Swap h (parent j) j) (parent j)) = mset (Swap h (parent j) j)"
      using "1.IH"[OF refl c0] pl by (simp add: parent_def)
    then show ?thesis
      using False pl "1.prems" by (subst up_unfold) simp
  qed
qed

lemma down_props:
  "n \<le> length h \<Longrightarrow>
   mset (down h k n) = mset h \<and> (\<forall>m. n \<le> m \<longrightarrow> down h k n ! m = h ! m)"
proof (induction h k n rule: down.induct)
  case (1 h k n)
  define j where "j = (if 2 * k + 2 < n \<and> Less h (2 * k + 2) (2 * k + 1) then 2 * k + 2
                       else 2 * k + 1)"
  show ?case
  proof (cases "n \<le> 2 * k + 1 \<or> \<not> Less h j k")
    case True
    then have "down h k n = h"
      by (subst down_unfold) (auto simp: j_def)
    then show ?thesis by simp
  next
    case False
    then have ln: "\<not> n \<le> 2 * k + 1" and lt: "Less h j k" by simp_all
    have jn: "j < n" and kj: "k < j"
      using ln by (auto simp: j_def)
    have kl: "k < length h" and jl: "j < length h"
      using kj jn "1.prems" by simp_all
    have eq: "down h k n = down (Swap h k j) j n"
      using ln lt by (subst down_unfold) (simp add: j_def)
    have jalt: "j = (if 2 * k + 1 + 1 < n \<and> Less h (2 * k + 1 + 1) (2 * k + 1)
                     then 2 * k + 1 + 1 else 2 * k + 1)"
      by (simp add: j_def)
    have nn: "\<not> \<not> Less h j k" using lt by simp
    have len: "n \<le> length (Swap h k j)" using "1.prems" by simp
    note ih = "1.IH"[OF refl ln jalt nn len]
    have "\<And>m. n \<le> m \<Longrightarrow> Swap h k j ! m = h ! m"
      using jn kj by (simp add: Swap_nth[OF kl jl])
    then show ?thesis
      unfolding eq using ih kl jl by simp
  qed
qed

lemma is_heap_root_min: "is_heap n h \<Longrightarrow> c < n \<Longrightarrow> key (h ! 0) \<le> key (h ! c)"
proof (induction c rule: less_induct)
  case (less c)
  show ?case
  proof (cases "c = 0")
    case True
    then show ?thesis by simp
  next
    case False
    then have c0: "0 < c" by simp
    have pl: "parent c < c" by (rule parent_less[OF c0])
    have "key (h ! 0) \<le> key (h ! parent c)"
      using less.IH[OF pl less.prems(1)] pl less.prems(2) by simp
    moreover have "key (h ! parent c) \<le> key (h ! c)"
      using less.prems c0 by (simp add: is_heap_def)
    ultimately show ?thesis by simp
  qed
qed

lemma heap_Push_heap:
  assumes "is_heap (length h) h"
  shows "is_heap (length (heap_Push h x)) (heap_Push h x)"
proof -
  let ?h = "h @ [x]"
  have 1: "length h < length ?h" by simp
  have "heap_except_up (length ?h) ?h (length h)"
    unfolding heap_except_up_def
  proof (intro conjI allI impI)
    fix c assume c: "0 < c \<and> c < length ?h \<and> c \<noteq> length h"
    then have cl: "c < length h" by simp
    then have "parent c < length h" using parent_less[of c] c by simp
    then show "key (?h ! parent c) \<le> key (?h ! c)"
      using assms cl c by (simp add: is_heap_def nth_append)
  next
    fix c assume c: "0 < c \<and> c < length ?h \<and> parent c = length h \<and> 0 < length h"
    then have "parent c < c" using parent_less[of c] by simp
    then have False using c by simp
    then show "key (?h ! parent (length h)) \<le> key (?h ! c)" ..
  qed
  from up_heap[OF 1 this] show ?thesis
    by (simp add: heap_Push_def)
qed

lemma heap_Push_mset: "mset (heap_Push h x) = add_mset x (mset h)"
  by (simp add: heap_Push_def mset_up)

lemma heap_Push_length: "length (heap_Push h x) = Suc (length h)"
  by (simp add: heap_Push_def)

lemma heap_Pop_heap:
  assumes ne: "h \<noteq> []" and hp: "is_heap (length h) h"
  shows "\<exists>h'. heap_Pop h = Inr (h ! 0, h') \<and> is_heap (length h') h'
            \<and> mset h = add_mset (h ! 0) (mset h') \<and> Suc (length h') = length h"
proof -
  define n where "n = length h - 1"
  define s where "s = Swap h 0 n"
  define d where "d = down s 0 n"
  have nl: "n < length h" and n1: "Suc n = length h"
    using ne by (simp_all add: n_def)
  have l0: "0 < length h" using ne by simp
  note sw = Swap_nth[OF l0 nl]
  have ms: "mset s = mset h" using l0 nl by (simp add: s_def)
  have ls: "length s = length h" by (simp add: s_def)
  have exd: "heap_except_down n s 0"
    unfolding heap_except_down_def
  proof (intro conjI allI impI)
    fix c assume c: "0 < c \<and> c < n \<and> parent c \<noteq> 0"
    then have "parent c < c" using parent_less[of c] by simp
    then have "s ! parent c = h ! parent c" "s ! c = h ! c"
      using c by (simp_all add: s_def sw)
    then show "key (s ! parent c) \<le> key (s ! c)"
      using hp c nl by (simp add: is_heap_def)
  next
    fix c assume "0 < c \<and> c < n \<and> parent c = 0 \<and> (0::nat) < 0"
    then show "key (s ! parent 0) \<le> key (s ! c)" by simp
  qed
  have nls: "n \<le> length s" using nl ls by simp
  have dh: "is_heap n d" unfolding d_def by (rule down_heap[OF nls exd])
  have dp: "mset d = mset s" "d ! n = s ! n" and ld: "length d = length h"
    using down_props[OF nls, of 0] by (simp_all add: d_def ls)
  have last: "d ! n = h ! 0" using dp(2) by (simp add: s_def sw)
  have "heap_Pop h = Inr (d ! n, take n d)"
    unfolding heap_Pop_def Let_def d_def s_def n_def using ne by simp
  then have pop: "heap_Pop h = Inr (h ! 0, take n d)"
    using last by simp
  have lt: "length (take n d) = n" using nl ld by simp
  have "is_heap (length (take n d)) (take n d)"
    unfolding lt using dh
    by (auto simp: is_heap_def dest: parent_less intro: order_less_trans)
  moreover have "d = take n d @ [d ! n]"
    using ld n1 by (metis lessI take_Suc_conv_app_nth take_all order_refl)
  then have "mset d = add_mset (d ! n) (mset (take n d))"
    by (metis mset.simps(2) mset_rev rev.simps(2) rev_rev_ident union_code add_mset_add_single mset_append mset_single_iff_right)
  then have "mset h = add_mset (h ! 0) (mset (take n d))"
    using dp(1) last ms by simp
  ultimately show ?thesis using pop lt n1 by auto
qed

subsection \<open>The invariant of the merged source\<close>

lemma set_heap_Push [simp]: "set (heap_Push h x) = insert x (set h)"
  using heap_Push_mset[of h x] by (metis mset_eq_setD set_mset_add_mset_insert set_mset_mset)




lemma source_Next_cases:
  assumes "source_Next s = (r, s')"
  obtains (eof) "s = []" "r = Inl EOF" "s' = []"
        | (line) l where "s = Line l # s'" "r = Inr l"
        | (fail) msg where "s = Fail msg # s'" "r = Inl (SourceError msg)"
  using assms by (cases s rule: source_Next.cases) auto








lemma record_heap_same: "m\<lparr>sources := xs, heap := heap m\<rparr> = m\<lparr>sources := xs\<rparr>"
  by simp


lemma heap_Init_Nil [simp]: "heap_Init [] = []"
  by (simp add: heap_Init_def)


lemma root_min_set:
  assumes "is_heap (length h) h" and "it \<in> set h"
  shows "key (h ! 0) \<le> key it"
proof -
  obtain c where "c < length h" "it = h ! c"
    using assms(2) by (auto simp: in_set_conv_nth)
  then show ?thesis using is_heap_root_min[OF assms(1), of c] by simp
qed


lemma popAndRefill_cases:
  assumes hp: "is_heap (length (heap m)) (heap m)"
    and run: "popAndRefill m = (r, m')" and pr: "proceeds r"
  obtains h' s' where
      "heap m \<noteq> []" "r = Inr (item_line (heap m ! 0))"
      "is_heap (length h') h'" "mset (heap m) = add_mset (heap m ! 0) (mset h')"
      "sourceIdx (heap m ! 0) < length (sources m)"
      "(sources m ! sourceIdx (heap m ! 0) = [] \<and> s' = []
          \<and> m' = m\<lparr>sources := (sources m)[sourceIdx (heap m ! 0) := s'], heap := h'\<rparr>)
       \<or> (\<exists>nl. sources m ! sourceIdx (heap m ! 0) = Line nl # s'
          \<and> m' = m\<lparr>sources := (sources m)[sourceIdx (heap m ! 0) := s'],
                    heap := heap_Push h' \<lparr>item_line = nl, sourceIdx = sourceIdx (heap m ! 0)\<rparr>\<rparr>)"
proof -
  have ne: "heap m \<noteq> []"
    using run pr by (auto simp: popAndRefill_def heap_Pop_def)
  from heap_Pop_heap[OF ne hp] obtain h' where
    pop: "heap_Pop (heap m) = Inr (heap m ! 0, h')" and hp': "is_heap (length h') h'"
    and ms: "mset (heap m) = add_mset (heap m ! 0) (mset h')"
    by blast
  let ?x = "heap m ! 0"
  have idx: "sourceIdx ?x < length (sources m)"
    using run pr pop by (auto simp: popAndRefill_def split: if_splits)
  obtain r1 s' where sn: "source_Next (sources m ! sourceIdx ?x) = (r1, s')"
    by (cases "source_Next (sources m ! sourceIdx ?x)")
  from sn show ?thesis
  proof (cases rule: source_Next_cases)
    case eof
    then have "r = Inr (item_line ?x)"
      "m' = m\<lparr>sources := (sources m)[sourceIdx ?x := s'], heap := h'\<rparr>"
      using run pop idx sn by (auto simp: popAndRefill_def)
    then show ?thesis using that[OF ne _ hp' ms idx] eof by blast
  next
    case (line nl)
    then have "r = Inr (item_line ?x)"
      "m' = m\<lparr>sources := (sources m)[sourceIdx ?x := s'],
               heap := heap_Push h' \<lparr>item_line = nl, sourceIdx = sourceIdx ?x\<rparr>\<rparr>"
      using run pop idx sn by (auto simp: popAndRefill_def)
    then show ?thesis using that[OF ne _ hp' ms idx] line by blast
  next
    case (fail msg)
    then have "r = Inl (SourceError msg)"
      using run pop idx sn by (auto simp: popAndRefill_def)
    then show ?thesis using pr by simp
  qed
qed







subsection \<open>Ties\<close>

lemma initLoop_is_heap:
  "is_heap (length (heap m)) (heap m) \<Longrightarrow>
   is_heap (length (heap (snd (initLoop i m)))) (heap (snd (initLoop i m)))"
proof (induction i m rule: initLoop.induct)
  case (1 i m)
  show ?case
  proof (cases "i < length (sources m)")
    case False
    then show ?thesis using "1.prems" by (subst initLoop.simps, subst initLoop.simps) simp
  next
    case True
    obtain r s' where sn: "source_Next (sources m ! i) = (r, s')"
      by (cases "source_Next (sources m ! i)")
    show ?thesis
    proof (cases r)
      case (Inl e)
      show ?thesis
      proof (cases "e = EOF")
        case eof: True
        let ?m = "m\<lparr>sources := (sources m)[i := s']\<rparr>"
        have eq: "initLoop i m = initLoop (i + 1) ?m"
          using True sn Inl eof by (subst initLoop.simps) simp
        have "is_heap (length (heap ?m)) (heap ?m)" using "1.prems" by simp
        from "1.IH"(1)[OF True sn[symmetric] Inl eof this] show ?thesis
          unfolding eq .
      next
        case False
        have "initLoop i m = (Some e, m\<lparr>sources := (sources m)[i := s']\<rparr>)"
          using True sn Inl False by (subst initLoop.simps) simp
        then show ?thesis using "1.prems" by simp
      qed
    next
      case (Inr l)
      let ?m = "m\<lparr>sources := (sources m)[i := s'],
                  heap := heap_Push (heap m) \<lparr>item_line = l, sourceIdx = i\<rparr>\<rparr>"
      have eq: "initLoop i m = initLoop (i + 1) ?m"
        using True sn Inr by (subst initLoop.simps) simp
      have "is_heap (length (heap ?m)) (heap ?m)"
        using heap_Push_heap[OF "1.prems"] by simp
      from "1.IH"(2)[OF True sn[symmetric] Inr this] show ?thesis
        unfolding eq .
    qed
  qed
qed

lemma pendingHeap_is_heap:
  assumes "is_heap (length (heap m)) (heap m)"
  shows "is_heap (length (pendingHeap m)) (pendingHeap m)"
proof (cases "heap m = [] \<and> \<not> closed m")
  case True
  then have eq: "m\<lparr>heap := heap_Init (heap m)\<rparr> = m" by simp
  have "pendingHeap m = heap (snd (initLoop 0 m))"
    using True unfolding pendingHeap_def initHeap_def eq by simp
  then show ?thesis
    using initLoop_is_heap[OF assms, of 0] by simp
next
  case False
  then show ?thesis using assms by (auto simp: pendingHeap_def)
qed

lemma Next_pending:
  assumes "MergedSource_Next m = (Inr l, m')"
  shows "\<exists>m1. heap m1 = pendingHeap m \<and> popAndRefill m1 = (Inr l, m')"
proof (cases "heap m = [] \<and> \<not> closed m")
  case True
  obtain e m1 where ih: "initHeap m = (e, m1)" by (cases "initHeap m")
  then have "heap m1 = pendingHeap m" using True by (simp add: pendingHeap_def)
  moreover have "popAndRefill m1 = (Inr l, m')"
    using assms True ih
    by (cases e; cases "heap m1 = []") (simp_all add: MergedSource_Next_def)
  ultimately show ?thesis by blast
next
  case False
  then have "heap m = pendingHeap m" by (auto simp: pendingHeap_def)
  moreover have "popAndRefill m = (Inr l, m')"
    using assms False by (cases "heap m = []") (auto simp: MergedSource_Next_def)
  ultimately show ?thesis by blast
qed

text \<open>
  C2 (as amended).  Whenever \<open>Next\<close> returns a record, the record is the root of the heap
  \<open>Next\<close> pops from (the heap of the next-available records, filled first when it is
  empty and the merged source is not closed), no record in that heap has an earlier
  timestamp, and the heap property is kept.  \<open>Less\<close> compares the timestamps only: when
  the next-available records of two or more sources carry equal timestamps, the one
  emitted first is the one at the root of the array, whatever its source index.  The
  emitted order is a function of the inputs, but not the order of the source indexes.
\<close>

theorem C2_next_emits_heap_root:
  assumes hp: "is_heap (length (heap m)) (heap m)"
    and run: "MergedSource_Next m = (Inr l, m')"
  shows "pendingHeap m \<noteq> [] \<and> l = item_line (pendingHeap m ! 0)
         \<and> (\<forall>it \<in> set (pendingHeap m). Timestamp l \<le> Timestamp (item_line it))
         \<and> is_heap (length (heap m')) (heap m')"
proof -
  from Next_pending[OF run] obtain m1 where
    h1: "heap m1 = pendingHeap m" and pr: "popAndRefill m1 = (Inr l, m')"
    by blast
  have hp1: "is_heap (length (heap m1)) (heap m1)"
    using pendingHeap_is_heap[OF hp] h1 by simp
  have "proceeds (Inr l)" by simp
  with hp1 pr have "heap m1 \<noteq> [] \<and> l = item_line (heap m1 ! 0)
      \<and> is_heap (length (heap m')) (heap m')"
  proof (cases rule: popAndRefill_cases)
    case (1 h' s')
    from 1(6) have "is_heap (length (heap m')) (heap m')"
      using 1(3) heap_Push_heap[OF 1(3)] by auto
    then show ?thesis using 1(1,2) by simp
  qed
  moreover have "\<forall>it \<in> set (heap m1). key (heap m1 ! 0) \<le> key it"
    using root_min_set[OF hp1] by blast
  ultimately show ?thesis
    using h1 by (simp add: key_def)
qed

theorem C2_witness:
  "\<exists>m'. MergedSource_Next (NewMergedSource ex_ties) = (Inr (ex_rec ''a.log'' 0), m')
     \<and> pendingHeap (NewMergedSource ex_ties) \<noteq> []
     \<and> ex_rec ''a.log'' 0 = item_line (pendingHeap (NewMergedSource ex_ties) ! 0)
     \<and> list_all (\<lambda>it. Timestamp (ex_rec ''a.log'' 0) \<le> Timestamp (item_line it))
          (pendingHeap (NewMergedSource ex_ties))
     \<and> is_heap (length (heap m')) (heap m')"
proof -
  have h0: "is_heap (length (heap (NewMergedSource ex_ties))) (heap (NewMergedSource ex_ties))"
    by (simp add: NewMergedSource_def is_heap_def)
  have "fst (MergedSource_Next (NewMergedSource ex_ties)) = Inr (ex_rec ''a.log'' 0)"
    by code_simp
  then obtain m' where
    run: "MergedSource_Next (NewMergedSource ex_ties) = (Inr (ex_rec ''a.log'' 0), m')"
    by (cases "MergedSource_Next (NewMergedSource ex_ties)") simp
  show ?thesis
    using C2_next_emits_heap_root[OF h0 run] run by (auto simp: list_all_iff)
qed

text \<open>
  The claim as stated fails: three sources with one record each, all at the same time, are
  emitted in the order of the sources 0, 2, 1.  \<open>heap.Pop\<close> swaps the root with the last
  element of the array, and \<open>down\<close> leaves the new root in place, since no child is before
  it.
\<close>

theorem C2_counterexample:
  "pull 4 (NewMergedSource ex_ties) =
     [Inr (ex_rec ''a.log'' 0), Inr (ex_rec ''c.log'' 0), Inr (ex_rec ''b.log'' 0), Inl EOF]
   \<and> Timestamp (ex_rec ''b.log'' 0) = Timestamp (ex_rec ''c.log'' 0)"
  by code_simp

subsection \<open>Order of the emitted records\<close>

lemma unfailing_Nil [simp]: "unfailing []"
  by (simp add: unfailing_def)

lemma unfailing_Line [simp]: "unfailing (Line l # s) = unfailing s"
  by (simp add: unfailing_def)

lemma unfailing_Fail [simp]: "\<not> unfailing (Fail msg # s)"
proof
  assume "unfailing (Fail msg # s)"
  then have "Fail msg # s = map Line (lines_of s)" by (simp add: unfailing_def)
  then show False by (cases "lines_of s") simp_all
qed









end
